theory Spec2Isabelle
  imports Complex_Main "HOL-Library.Sublist"
begin

section \<open>Aurora QA: the rule-based question-answering engine\<close>

text \<open>
  A shallow embedding of \<^verbatim>\<open>app/qa_engine.py\<close> and of the message entity of
  \<^verbatim>\<open>app/models.py\<close>.

  Conventions of the model.
  \<^item> A Python \<^verbatim>\<open>str\<close> is a \<open>string\<close>; the character classes (\<^verbatim>\<open>\w\<close>, \<^verbatim>\<open>\d\<close>,
    \<^verbatim>\<open>\s\<close>, \<^verbatim>\<open>str.lower\<close>, \<^verbatim>\<open>str.isupper\<close>) are the ASCII ones. On ASCII text they
    agree with Python's Unicode classes; a character outside ASCII is treated as an
    uncased character that is no letter, digit, space or word character.
  \<^item> An operation that can raise in Python (indexing a list or a string, \<^verbatim>\<open>int\<close>)
    returns a value of \<open>py_error + 'a\<close>, \<open>Inl\<close> being the exception.
  \<^item> A Python \<^verbatim>\<open>set\<close> has no specified iteration order. Every function that iterates
    over the set of member names takes the order in which the set is iterated as an
    argument; \<open>is_iteration_order\<close> says that the argument is such an order.
  \<^item> \<^verbatim>\<open>difflib.SequenceMatcher(None, a, b).ratio()\<close> is library code; it is an
    argument \<open>ratio\<close> of the functions that call it, with values in the rationals
    (the ratio is \<open>2 * M / T\<close> for natural numbers \<open>M\<close> and \<open>T\<close>, and comparing such
    fractions as doubles or as rationals gives the same result on strings of any
    realistic length).
  \<^item> Each regular expression is translated into a function that tries every start
    position from left to right (\<open>re_search\<close>) and at each position does what the
    backtracking matcher does for that expression.
\<close>

subsection \<open>Exceptions\<close>

datatype py_error = IndexError | KeyError | ValueError

subsection \<open>Characters and strings\<close>

definition is_upper :: "char \<Rightarrow> bool" where
  "is_upper c = (c \<in> set ''ABCDEFGHIJKLMNOPQRSTUVWXYZ'')"

definition is_lower :: "char \<Rightarrow> bool" where
  "is_lower c = (c \<in> set ''abcdefghijklmnopqrstuvwxyz'')"

text \<open>\<^verbatim>\<open>[A-Za-z]\<close>\<close>

definition is_alpha :: "char \<Rightarrow> bool" where
  "is_alpha c = (is_upper c \<or> is_lower c)"

text \<open>\<^verbatim>\<open>\d\<close>\<close>

definition is_digit :: "char \<Rightarrow> bool" where
  "is_digit c = (c \<in> set ''0123456789'')"

text \<open>\<^verbatim>\<open>\w\<close>\<close>

definition is_word :: "char \<Rightarrow> bool" where
  "is_word c = (is_alpha c \<or> is_digit c \<or> c = CHR ''_'')"

text \<open>
  \<^verbatim>\<open>\s\<close> and the separators of \<^verbatim>\<open>str.split()\<close>: tab, line feed, vertical tab, form
  feed, carriage return, the four separators \<open>0x1C\<close> to \<open>0x1F\<close>, and the space.
\<close>

definition is_space :: "char \<Rightarrow> bool" where
  "is_space c = (c \<in> set [CHR 0x09, CHR 0x0A, CHR 0x0B, CHR 0x0C, CHR 0x0D,
                            CHR 0x1C, CHR 0x1D, CHR 0x1E, CHR 0x1F, CHR '' ''])"

definition lower_char :: "char \<Rightarrow> char" where
  "lower_char c =
     (case map_of (zip ''ABCDEFGHIJKLMNOPQRSTUVWXYZ'' ''abcdefghijklmnopqrstuvwxyz'') c of
        Some l \<Rightarrow> l
      | None \<Rightarrow> c)"

text \<open>\<^verbatim>\<open>s.lower()\<close>\<close>

definition lower :: "string \<Rightarrow> string" where
  "lower s = map lower_char s"

text \<open>\<^verbatim>\<open>sub in s\<close> on strings: \<open>sub\<close> occurs in \<open>s\<close> as a contiguous block.\<close>

fun str_in :: "string \<Rightarrow> string \<Rightarrow> bool" where
  "str_in sub [] = (sub = [])"
| "str_in sub (c # cs) = (prefix sub (c # cs) \<or> str_in sub cs)"

text \<open>
  \<^verbatim>\<open>s.split()\<close>: the maximal runs of characters that are not white space. \<open>cur\<close> is
  the run being read.
\<close>

fun split_ws :: "string \<Rightarrow> string \<Rightarrow> string list" where
  "split_ws cur [] = (if cur = [] then [] else [cur])"
| "split_ws cur (c # cs) =
     (if is_space c then (if cur = [] then [] else [cur]) @ split_ws [] cs
      else split_ws (cur @ [c]) cs)"

definition split :: "string \<Rightarrow> string list" where
  "split s = split_ws [] s"

text \<open>\<^verbatim>\<open>s.strip()\<close>\<close>

definition strip :: "string \<Rightarrow> string" where
  "strip s = rev (dropWhile is_space (rev (dropWhile is_space s)))"

text \<open>\<^verbatim>\<open>xs[i]\<close> on a list or a string, a negative index counting from the end.\<close>

definition py_getitem :: "'a list \<Rightarrow> int \<Rightarrow> py_error + 'a" where
  "py_getitem xs i =
     (if 0 \<le> i \<and> i < int (length xs) then Inr (xs ! nat i)
      else if i < 0 \<and> - int (length xs) \<le> i then Inr (xs ! nat (int (length xs) + i))
      else Inl IndexError)"

text \<open>\<^verbatim>\<open>d[k]\<close> on a dictionary.\<close>

definition py_dict_getitem :: "('k \<rightharpoonup> 'v) \<Rightarrow> 'k \<Rightarrow> py_error + 'v" where
  "py_dict_getitem d k = (case d k of None \<Rightarrow> Inl KeyError | Some v \<Rightarrow> Inr v)"

text \<open>
  \<^verbatim>\<open>int(s)\<close> on a string of decimal digits, and \<^verbatim>\<open>str(n)\<close> on a natural number.
  \<^verbatim>\<open>int\<close> raises \<^verbatim>\<open>ValueError\<close> on the empty string, on a string with a character that
  is no digit, and on a string of more digits than the interpreter's limit
  \<^verbatim>\<open>sys.get_int_max_str_digits()\<close>, which is 4300 unless it is configured otherwise;
  leading zeros count as digits. \<^verbatim>\<open>str\<close> has the same limit on the digits of its
  result; the only numbers converted here are results of \<^verbatim>\<open>int\<close>, which stay below it.
\<close>

definition int_max_str_digits :: nat where
  "int_max_str_digits = 4300"

definition digit_val :: "char \<Rightarrow> nat" where
  "digit_val c =
     (case map_of (zip ''0123456789'' [0, 1, 2, 3, 4, 5, 6, 7, 8, 9]) c of
        Some d \<Rightarrow> d
      | None \<Rightarrow> 0)"

definition py_int :: "string \<Rightarrow> py_error + nat" where
  "py_int s =
     (if s = [] \<or> \<not> list_all is_digit s then Inl ValueError
      else if int_max_str_digits < length s then Inl ValueError
      else Inr (foldl (\<lambda>acc c. 10 * acc + digit_val c) 0 s))"

definition digit_char :: "nat \<Rightarrow> char" where
  "digit_char d = ''0123456789'' ! d"

function str_nat :: "nat \<Rightarrow> string" where
  "str_nat n =
     (if n < 10 then [digit_char n]
      else str_nat (n div 10) @ [digit_char (n mod 10)])"
  by pat_completeness auto
termination
  by (relation "measure id") auto

declare str_nat.simps [simp del]

subsection \<open>Regular-expression search\<close>

text \<open>
  \<^verbatim>\<open>re.search\<close>: the pattern is tried at every position from left to right and the
  first position where it matches gives the result. The matcher \<open>m\<close> of a pattern gets
  the character before the position (for \<^verbatim>\<open>\b\<close>) and the text from the position on.
\<close>

fun re_search :: "(char option \<Rightarrow> string \<Rightarrow> 'a option) \<Rightarrow> char option \<Rightarrow> string \<Rightarrow> 'a option" where
  "re_search m prev [] = m prev []"
| "re_search m prev (c # cs) =
     (case m prev (c # cs) of
        Some r \<Rightarrow> Some r
      | None \<Rightarrow> re_search m (Some c) cs)"

text \<open>
  \<^verbatim>\<open>\b\<close> between the character \<open>prev\<close> (if any) and the text \<open>s\<close>: exactly one side is a
  word character.
\<close>

definition word_boundary :: "char option \<Rightarrow> string \<Rightarrow> bool" where
  "word_boundary prev s =
     ((case prev of None \<Rightarrow> False | Some p \<Rightarrow> is_word p)
        \<noteq> (case s of [] \<Rightarrow> False | c # _ \<Rightarrow> is_word c))"

subsection \<open>Messages\<close>

text \<open>\<^verbatim>\<open>MemberMessage\<close>; the time stamp, which the engine never reads, is kept as text.\<close>

record MemberMessage =
  member_id :: "string option"
  member_name :: "string option"
  "text" :: string
  created_at :: "string option"

text \<open>
  The names \<^verbatim>\<open>m.member_name for m in messages if m.member_name\<close>, in the order of the
  messages and with repetitions; a name that is \<^verbatim>\<open>None\<close> or empty is falsy.
\<close>

definition truthy_names :: "MemberMessage list \<Rightarrow> string list" where
  "truthy_names messages =
     concat (map (\<lambda>m. case member_name m of
                            None \<Rightarrow> []
                          | Some n \<Rightarrow> if n = [] then [] else [n]) messages)"

text \<open>The set \<^verbatim>\<open>unique_names\<close>.\<close>

definition unique_names :: "MemberMessage list \<Rightarrow> string set" where
  "unique_names messages = set (truthy_names messages)"

text \<open>\<open>names\<close> is an order in which iterating over \<^verbatim>\<open>unique_names\<close> may yield its elements.\<close>

definition is_iteration_order :: "string list \<Rightarrow> MemberMessage list \<Rightarrow> bool" where
  "is_iteration_order names messages =
     (distinct names \<and> set names = unique_names messages)"

text \<open>\<^verbatim>\<open>filter_messages_for_member\<close>\<close>

definition filter_messages_for_member :: "MemberMessage list \<Rightarrow> string \<Rightarrow> MemberMessage list" where
  "filter_messages_for_member messages name =
     filter (\<lambda>m. member_name m = Some name) messages"

text \<open>Sequencing of computations that may raise.\<close>

definition py_bind :: "py_error + 'a \<Rightarrow> ('a \<Rightarrow> py_error + 'b) \<Rightarrow> py_error + 'b" where
  "py_bind r f = (case r of Inl e \<Rightarrow> Inl e | Inr x \<Rightarrow> f x)"

text \<open>The truth value of an optional string: \<^verbatim>\<open>None\<close> and the empty string are falsy.\<close>

definition truthy :: "string option \<Rightarrow> bool" where
  "truthy v = (case v of None \<Rightarrow> False | Some s \<Rightarrow> s \<noteq> [])"

subsection \<open>Member resolution\<close>

text \<open>
  The dictionary \<^verbatim>\<open>msg_counts\<close>, built in one pass:
  \<^verbatim>\<open>msg_counts[m.member_name] = msg_counts.get(m.member_name, 0) + 1\<close>.
\<close>

definition msg_counts :: "MemberMessage list \<Rightarrow> (string \<rightharpoonup> nat)" where
  "msg_counts messages =
     foldl (\<lambda>counts m.
              case member_name m of
                None \<Rightarrow> counts
              | Some n \<Rightarrow>
                  if n = [] then counts
                  else counts(n \<mapsto> (case counts n of None \<Rightarrow> 0 | Some c \<Rightarrow> c) + 1))
           Map.empty messages"

text \<open>
  \<^verbatim>\<open>re.findall(r"[a-zA-Z]+", s)\<close>: the maximal runs of letters, \<open>cur\<close> being the run
  that is read.
\<close>

fun findall_alpha :: "string \<Rightarrow> string \<Rightarrow> string list" where
  "findall_alpha cur [] = (if cur = [] then [] else [cur])"
| "findall_alpha cur (c # cs) =
     (if is_alpha c then findall_alpha (cur @ [c]) cs
      else (if cur = [] then [] else [cur]) @ findall_alpha [] cs)"

text \<open>
  \<^verbatim>\<open>sorted(unique_names, key=len, reverse=True)\<close>: a stable sort on the iteration
  order, by decreasing length (Python keeps the order of equal keys also under
  \<^verbatim>\<open>reverse=True\<close>).
\<close>

definition sorted_longest_first :: "string list \<Rightarrow> string list" where
  "sorted_longest_first names = sort_key (\<lambda>n. - int (length n)) names"

text \<open>
  The loop that fills \<^verbatim>\<open>by_first\<close>:
  \<^verbatim>\<open>by_first.setdefault(first, []).append(name)\<close> for every name with a first word.
\<close>

fun by_first_loop ::
  "(string \<rightharpoonup> string list) \<Rightarrow> string list \<Rightarrow> py_error + (string \<rightharpoonup> string list)" where
  "by_first_loop by_first [] = Inr by_first"
| "by_first_loop by_first (name # names) =
     (let parts = split name in
      if parts = [] then by_first_loop by_first names
      else
        py_bind (py_getitem parts 0) (\<lambda>p.
          let first = lower p in
          by_first_loop
            (by_first(first \<mapsto> (case by_first first of None \<Rightarrow> [] | Some l \<Rightarrow> l) @ [name]))
            names))"

text \<open>
  Step 2a, the loop over the tokens that returns the only name of a first name;
  \<open>Inr None\<close> when the loop ends without returning.
\<close>

fun unique_first_loop ::
  "(string \<rightharpoonup> string list) \<Rightarrow> string list \<Rightarrow> py_error + string option" where
  "unique_first_loop by_first [] = Inr None"
| "unique_first_loop by_first (token # tokens) =
     (if by_first token \<noteq> None then
        py_bind (py_dict_getitem by_first token) (\<lambda>names.
          if length names = 1 then
            py_bind (py_dict_getitem by_first token) (\<lambda>names'.
            py_bind (py_getitem names' 0) (\<lambda>name. Inr (Some name)))
          else unique_first_loop by_first tokens)
      else unique_first_loop by_first tokens)"

text \<open>
  Step 2b: the inner loop over the candidates of one token and the outer loop over
  the tokens, on the state \<^verbatim>\<open>(best_name, best_score)\<close>.
\<close>

fun candidates_loop ::
  "(string \<rightharpoonup> nat) \<Rightarrow> string option \<times> nat \<Rightarrow> string list \<Rightarrow> string option \<times> nat" where
  "candidates_loop counts st [] = st"
| "candidates_loop counts (best_name, best_score) (name # names) =
     (let score = (case counts name of None \<Rightarrow> 0 | Some c \<Rightarrow> c) in
      if score > best_score then candidates_loop counts (Some name, score) names
      else candidates_loop counts (best_name, best_score) names)"

fun popularity_loop ::
  "(string \<rightharpoonup> string list) \<Rightarrow> (string \<rightharpoonup> nat) \<Rightarrow> string option \<times> nat \<Rightarrow> string list
     \<Rightarrow> py_error + (string option \<times> nat)" where
  "popularity_loop by_first counts st [] = Inr st"
| "popularity_loop by_first counts st (token # tokens) =
     (if by_first token \<noteq> None then
        py_bind (py_dict_getitem by_first token) (\<lambda>names.
          if length names > 1 then
            py_bind (py_dict_getitem by_first token) (\<lambda>candidates.
              popularity_loop by_first counts (candidates_loop counts st candidates) tokens)
          else popularity_loop by_first counts st tokens)
      else popularity_loop by_first counts st tokens)"

text \<open>
  \<^verbatim>\<open>find_member_name_in_question\<close>. \<open>names\<close> is the order in which the set
  \<^verbatim>\<open>unique_names\<close> is iterated (the same set object is iterated by the sort of step 1
  and by the loop that fills \<^verbatim>\<open>by_first\<close>).
\<close>

definition find_member_name_in_question ::
  "string list \<Rightarrow> string \<Rightarrow> MemberMessage list \<Rightarrow> py_error + string option" where
  "find_member_name_in_question names question messages =
     (if messages = [] then Inr None
      else
        let q_lower = lower question;
            counts = msg_counts messages;
            tokens = findall_alpha [] q_lower
        in
          case find (\<lambda>name. name \<noteq> [] \<and> str_in (lower name) q_lower)
                 (sorted_longest_first names) of
            Some name \<Rightarrow> Inr (Some name)
          | None \<Rightarrow>
              py_bind (by_first_loop Map.empty names) (\<lambda>by_first.
              py_bind (unique_first_loop by_first tokens) (\<lambda>unique.
                case unique of
                  Some name \<Rightarrow> Inr (Some name)
                | None \<Rightarrow>
                    py_bind (popularity_loop by_first counts (None, 0) tokens)
                      (\<lambda>(best_name, best_score).
                         if truthy best_name then Inr best_name else Inr None))))"

text \<open>
  The pattern \<^verbatim>\<open>\b([A-Za-z]+)'s\b\<close> at one position; the result is group 1. The
  letters are followed by an apostrophe, so the group is the whole run of letters.
\<close>

definition possessive_at :: "char option \<Rightarrow> string \<Rightarrow> string option" where
  "possessive_at prev s =
     (let name = takeWhile is_alpha s; rest = dropWhile is_alpha s in
      if word_boundary prev s \<and> name \<noteq> [] \<and> prefix [CHR 0x27, CHR ''s''] rest
         \<and> word_boundary (Some CHR ''s'') (drop 2 rest)
      then Some name else None)"

text \<open>
  The fallback loop of \<^verbatim>\<open>extract_requested_first_name\<close> over the tokens after the
  first one; \<^verbatim>\<open>re.sub(r"[^\w]", "", tok)\<close> keeps the word characters.
\<close>

fun capitalized_loop :: "string list \<Rightarrow> py_error + string option" where
  "capitalized_loop [] = Inr None"
| "capitalized_loop (tok # toks) =
     (if tok \<noteq> [] then
        py_bind (py_getitem tok 0) (\<lambda>c.
          if is_upper c then
            (let cleaned = filter is_word tok in
             if cleaned \<noteq> [] then Inr (Some cleaned) else capitalized_loop toks)
          else capitalized_loop toks)
      else capitalized_loop toks)"

definition extract_requested_first_name :: "string \<Rightarrow> py_error + string option" where
  "extract_requested_first_name question =
     (case re_search possessive_at None question of
        Some g \<Rightarrow> Inr (Some g)
      | None \<Rightarrow> capitalized_loop (drop 1 (split question)))"

text \<open>
  The loop of \<^verbatim>\<open>suggest_similar_member_by_first_name\<close> on the state
  \<^verbatim>\<open>(best_full_name, best_ratio)\<close>.
\<close>

fun suggest_loop ::
  "(string \<Rightarrow> string \<Rightarrow> rat) \<Rightarrow> string \<Rightarrow> string option \<times> rat \<Rightarrow> string list
     \<Rightarrow> py_error + (string option \<times> rat)" where
  "suggest_loop ratio requested st [] = Inr st"
| "suggest_loop ratio requested (best_full_name, best_ratio) (full_name # names) =
     (let parts = split full_name in
      if parts = [] then suggest_loop ratio requested (best_full_name, best_ratio) names
      else
        py_bind (py_getitem parts 0) (\<lambda>p.
          let first = lower p; r = ratio requested first in
          if r > best_ratio then suggest_loop ratio requested (Some full_name, r) names
          else suggest_loop ratio requested (best_full_name, best_ratio) names))"

text \<open>
  \<^verbatim>\<open>suggest_similar_member_by_first_name\<close>. \<open>names\<close> is the order in which the set of
  names built from the messages is iterated, \<open>ratio a b\<close> is
  \<^verbatim>\<open>SequenceMatcher(None, a, b).ratio()\<close>.
\<close>

definition suggest_similar_member_by_first_name ::
  "(string \<Rightarrow> string \<Rightarrow> rat) \<Rightarrow> string list \<Rightarrow> string \<Rightarrow> rat \<Rightarrow> py_error + string option" where
  "suggest_similar_member_by_first_name ratio names requested_first_name min_similarity =
     (let requested = lower requested_first_name in
      py_bind (suggest_loop ratio requested (None, 0) names)
        (\<lambda>(best_full_name, best_ratio).
           if truthy best_full_name \<and> best_ratio \<ge> min_similarity
           then Inr best_full_name else Inr None))"

subsection \<open>Question classification\<close>

definition detect_question_type :: "string \<Rightarrow> string" where
  "detect_question_type question =
     (let q = lower question in
      if str_in ''how many'' q \<and> str_in ''car'' q then ''car_count''
      else if str_in ''favorite'' q \<and> str_in ''restaurant'' q then ''favorite_restaurants''
      else if str_in ''when'' q \<and> str_in ''trip'' q then ''trip_when''
      else ''generic'')"

subsection \<open>Car count\<close>

text \<open>
  The pattern \<^verbatim>\<open>\b(\d+)\s+car\<close> at one position; the result is group 1. White space
  follows the digits and \<^verbatim>\<open>c\<close> follows the white space, so both runs are maximal.
\<close>

definition car_count_at :: "char option \<Rightarrow> string \<Rightarrow> string option" where
  "car_count_at prev s =
     (let digits = takeWhile is_digit s; r1 = dropWhile is_digit s;
          spaces = takeWhile is_space r1; r2 = dropWhile is_space r1 in
      if word_boundary prev s \<and> digits \<noteq> [] \<and> spaces \<noteq> [] \<and> prefix ''car'' r2
      then Some digits else None)"

definition extract_car_count_from_text :: "string \<Rightarrow> py_error + nat option" where
  "extract_car_count_from_text t =
     (case re_search car_count_at None (lower t) of
        Some g \<Rightarrow>
          (case py_int g of
             Inr n \<Rightarrow> Inr (Some n)
           | Inl e \<Rightarrow> if e = ValueError then Inr None else Inl e)
      | None \<Rightarrow> Inr None)"

text \<open>The loop of \<^verbatim>\<open>answer_car_count\<close>, over the reversed messages.\<close>

fun car_count_loop :: "string \<Rightarrow> MemberMessage list \<Rightarrow> py_error + string" where
  "car_count_loop name [] =
     Inr (''I couldn't find how many cars '' @ name @ '' has in their messages.'')"
| "car_count_loop name (msg # msgs) =
     py_bind (extract_car_count_from_text (text msg)) (\<lambda>count.
       case count of
         Some n \<Rightarrow>
           Inr (name @ '' has '' @ str_nat n @ '' car'' @ (if n \<noteq> 1 then ''s'' else []) @ ''.'')
       | None \<Rightarrow> car_count_loop name msgs)"

definition answer_car_count :: "string \<Rightarrow> MemberMessage list \<Rightarrow> py_error + string" where
  "answer_car_count name messages = car_count_loop name (rev messages)"

subsection \<open>Trip timing\<close>

text \<open>
  \<^verbatim>\<open>MONTH_PATTERN\<close>. The month names in the order in which the matcher tries them:
  the alternatives from left to right, and within one alternative the longer form
  before the shorter one (the optional groups are greedy).
\<close>

definition month_words :: "string list" where
  "month_words =
     [''January'', ''Jan'', ''February'', ''Feb'', ''March'', ''Mar'', ''April'', ''Apr'',
      ''May'', ''June'', ''Jun'', ''July'', ''Jul'', ''August'', ''Aug'',
      ''September'', ''Sept'', ''Sep'', ''October'', ''Oct'', ''November'', ''Nov'',
      ''December'', ''Dec'']"

text \<open>\<^verbatim>\<open>(?:st|nd|rd|th)?\<close>: what the group consumes at the start of \<open>s\<close>.\<close>

definition ordinal_suffix :: "string \<Rightarrow> string" where
  "ordinal_suffix s = (if take 2 s \<in> set [''st'', ''nd'', ''rd'', ''th''] then take 2 s else [])"

text \<open>\<^verbatim>\<open>(?:,\s*\d{4})?\<close>: what the group consumes at the start of \<open>s\<close>.\<close>

definition year_part :: "string \<Rightarrow> string" where
  "year_part s =
     (case s of
        [] \<Rightarrow> []
      | c # r \<Rightarrow>
          (let spaces = takeWhile is_space r; year = take 4 (dropWhile is_space r) in
           if c = CHR '','' \<and> length year = 4 \<and> list_all is_digit year
           then c # spaces @ year else []))"

text \<open>
  \<^verbatim>\<open>\s+\d{1,2}(?:st|nd|rd|th)?(?:,\s*\d{4})?\<close> at the start of \<open>s\<close>: the text matched.
  Everything after the day is optional, so the day takes two digits when it can.
\<close>

definition day_tail :: "string \<Rightarrow> string option" where
  "day_tail s =
     (let spaces = takeWhile is_space s; r = dropWhile is_space s;
          day = take 2 (takeWhile is_digit r) in
      if spaces \<noteq> [] \<and> day \<noteq> [] then
        (let r2 = drop (length day) r; suffix = ordinal_suffix r2;
             r3 = drop (length suffix) r2 in
         Some (spaces @ day @ suffix @ year_part r3))
      else None)"

fun month_alternatives :: "string list \<Rightarrow> string \<Rightarrow> string option" where
  "month_alternatives [] s = None"
| "month_alternatives (w # ws) s =
     (if prefix w s then
        (case day_tail (drop (length w) s) of
           Some t \<Rightarrow> Some (w @ t)
         | None \<Rightarrow> month_alternatives ws s)
      else month_alternatives ws s)"

definition month_at :: "char option \<Rightarrow> string \<Rightarrow> string option" where
  "month_at prev s =
     (if word_boundary prev s then month_alternatives month_words s else None)"

text \<open>
  \<^verbatim>\<open>DATE_SLASH_PATTERN\<close>. \<^verbatim>\<open>\d{1,2}/\<close> at the start of \<open>s\<close>: the text matched and the
  rest. A slash follows the digits, so the run of digits has one or two digits.
\<close>

definition digits_slash :: "string \<Rightarrow> (string \<times> string) option" where
  "digits_slash s =
     (let ds = takeWhile is_digit s; r = dropWhile is_digit s in
      if (length ds = 1 \<or> length ds = 2) \<and> prefix ''/'' r
      then Some (ds @ ''/'', drop 1 r) else None)"

text \<open>
  The last part \<^verbatim>\<open>\d{2,4}\b\<close> needs a run of two to four digits that ends at a
  word boundary: with fewer digits than the run has, a digit follows and \<^verbatim>\<open>\b\<close> fails.
\<close>

definition slash_date_at :: "char option \<Rightarrow> string \<Rightarrow> string option" where
  "slash_date_at prev s =
     (if word_boundary prev s then
        (case digits_slash s of
           None \<Rightarrow> None
         | Some (a, r1) \<Rightarrow>
             (case digits_slash r1 of
                None \<Rightarrow> None
              | Some (b, r2) \<Rightarrow>
                  (let ds = takeWhile is_digit r2; r3 = dropWhile is_digit r2 in
                   if 2 \<le> length ds \<and> length ds \<le> 4 \<and> word_boundary (Some (last ds)) r3
                   then Some (a @ b @ ds) else None)))
      else None)"

definition extract_date_phrase :: "string \<Rightarrow> string option" where
  "extract_date_phrase t =
     (case re_search month_at None t of
        Some g \<Rightarrow> Some g
      | None \<Rightarrow> re_search slash_date_at None t)"

text \<open>
  The pattern \<^verbatim>\<open>trip to ([A-Za-z ]+)\??\<close> with \<^verbatim>\<open>re.IGNORECASE\<close> at one position; the
  result is group 1, the whole run of letters and spaces after the literal.
\<close>

definition trip_to_at :: "char option \<Rightarrow> string \<Rightarrow> string option" where
  "trip_to_at prev s =
     (let g = takeWhile (\<lambda>c. is_alpha c \<or> c = CHR '' '') (drop 8 s) in
      if lower (take 8 s) = ''trip to '' \<and> g \<noteq> [] then Some g else None)"

definition extract_destination_from_question :: "string \<Rightarrow> string option" where
  "extract_destination_from_question question =
     (case re_search trip_to_at None question of
        Some g \<Rightarrow> Some (strip g)
      | None \<Rightarrow> None)"

definition answer_trip_when :: "string \<Rightarrow> string \<Rightarrow> MemberMessage list \<Rightarrow> py_error + string" where
  "answer_trip_when question name messages =
     (let destination = extract_destination_from_question question in
      if \<not> truthy destination then
        (let candidate_msgs = filter (\<lambda>m. str_in ''trip'' (lower (text m))) messages in
         if candidate_msgs = [] then
           Inr (''I couldn't find any trip details for '' @ name @ ''.'')
         else
           py_bind (py_getitem candidate_msgs (- 1)) (\<lambda>latest.
             case extract_date_phrase (text latest) of
               Some date_phrase \<Rightarrow>
                 if date_phrase \<noteq> [] then
                   Inr (name @ '' seems to be planning a trip around '' @ date_phrase @ ''.'')
                 else Inr (text latest)
             | None \<Rightarrow> Inr (text latest)))
      else
        (let dest = (case destination of Some d \<Rightarrow> d | None \<Rightarrow> []);
             dest_lower = lower dest;
             candidate_msgs = filter (\<lambda>m. str_in dest_lower (lower (text m))) messages in
         if candidate_msgs = [] then
           Inr (''I couldn't find any messages from '' @ name @ '' about a trip to '' @ dest @ ''.'')
         else
           py_bind (py_getitem candidate_msgs (- 1)) (\<lambda>latest.
             case extract_date_phrase (text latest) of
               Some date_phrase \<Rightarrow>
                 if date_phrase \<noteq> [] then
                   Inr (name @ '' is planning their trip to '' @ dest @ '' around ''
                          @ date_phrase @ ''.'')
                 else Inr (text latest)
             | None \<Rightarrow> Inr (text latest))))"

subsection \<open>Favorite restaurants\<close>

text \<open>\<^verbatim>\<open>sep.join(xs)\<close>\<close>

fun join :: "string \<Rightarrow> string list \<Rightarrow> string" where
  "join sep [] = []"
| "join sep [x] = x"
| "join sep (x # y # ys) = x @ sep @ join sep (y # ys)"

definition answer_favorite_restaurants :: "string \<Rightarrow> MemberMessage list \<Rightarrow> py_error + string" where
  "answer_favorite_restaurants name messages =
     (let candidates =
            map text (filter (\<lambda>msg. str_in ''favorite'' (lower (text msg))
                                   \<and> str_in ''restaurant'' (lower (text msg))) messages) in
      if candidates = [] then
        Inr (''I couldn't find any messages about '' @ name @ [CHR 0x27] @ ''s favorite restaurants.'')
      else if length candidates = 1 then py_getitem candidates 0
      else
        Inr (name @ [CHR 0x27] @ ''s messages about favorite restaurants: ''
               @ join '' | '' candidates))"

subsection \<open>The orchestrator\<close>

text \<open>
  Step 3 of \<^verbatim>\<open>answer_question_baseline\<close>: the dispatch on the question type, whose
  result the source binds to \<^verbatim>\<open>core_answer\<close>.
\<close>

definition core_answer :: "string \<Rightarrow> string \<Rightarrow> MemberMessage list \<Rightarrow> py_error + string" where
  "core_answer question name member_msgs =
     (let qtype = detect_question_type question in
      if qtype = ''car_count'' then answer_car_count name member_msgs
      else if qtype = ''trip_when'' then answer_trip_when question name member_msgs
      else if qtype = ''favorite_restaurants'' then answer_favorite_restaurants name member_msgs
      else py_bind (py_getitem member_msgs (- 1)) (\<lambda>latest_msg. Inr (text latest_msg)))"

text \<open>
  \<^verbatim>\<open>answer_question_baseline\<close>. \<open>names1\<close> is the iteration order of the set of names
  in \<^verbatim>\<open>find_member_name_in_question\<close>, \<open>names2\<close> that of the set in
  \<^verbatim>\<open>suggest_similar_member_by_first_name\<close>.
\<close>

definition answer_question_baseline ::
  "(string \<Rightarrow> string \<Rightarrow> rat) \<Rightarrow> string list \<Rightarrow> string list \<Rightarrow> string \<Rightarrow> MemberMessage list
     \<Rightarrow> py_error + string" where
  "answer_question_baseline ratio names1 names2 question messages =
     (if messages = [] then Inr ''I couldn't retrieve any member messages.''
      else
        py_bind (find_member_name_in_question names1 question messages) (\<lambda>strict_name.
        py_bind (extract_requested_first_name question) (\<lambda>requested_first_name.
        py_bind (if \<not> truthy strict_name \<and> truthy requested_first_name then
                   suggest_similar_member_by_first_name ratio names2
                     (case requested_first_name of Some r \<Rightarrow> r | None \<Rightarrow> []) (4 / 5)
                 else Inr None) (\<lambda>suggested_name.
          let member_name = (if truthy suggested_name then suggested_name else strict_name) in
          if \<not> truthy member_name then
            Inr ''I couldn't identify which member the question is about.''
          else
            (let name = (case member_name of Some n \<Rightarrow> n | None \<Rightarrow> []);
                 member_msgs = filter_messages_for_member messages name in
             if member_msgs = [] then
               Inr (''I couldn't find any messages for '' @ name @ ''.'')
             else
               py_bind (core_answer question name member_msgs) (\<lambda>core.
                 if truthy suggested_name \<and> truthy requested_first_name then
                   Inr (''I couldn't find any member named ''
                          @ (case requested_first_name of Some r \<Rightarrow> r | None \<Rightarrow> [])
                          @ '', but I did find ''
                          @ (case suggested_name of Some n \<Rightarrow> n | None \<Rightarrow> [])
                          @ ''. Here is what their messages say:'' @ [CHR 0x0A, CHR 0x0A] @ core)
                 else Inr core))))))"

subsection \<open>The similarity ratio of the standard library\<close>

text \<open>
  A model of \<^verbatim>\<open>difflib.SequenceMatcher(None, a, b).ratio()\<close> for a second string
  of fewer than 200 characters (from 200 characters on the library also discards
  popular characters). The theorems below hold for every function \<open>ratio\<close>; this
  one is used to run the engine on concrete inputs.

  \<^verbatim>\<open>find_longest_match\<close> returns the longest common block, the one that starts
  earliest in \<open>a\<close> and then earliest in \<open>b\<close>; the matching blocks are found by
  recursion to the left and to the right of it. Every level of the recursion removes
  a character of \<open>a\<close>, so \<open>length a\<close> levels are enough.
\<close>

fun common_prefix_length :: "string \<Rightarrow> string \<Rightarrow> nat" where
  "common_prefix_length (x # xs) (y # ys) =
     (if x = y then Suc (common_prefix_length xs ys) else 0)"
| "common_prefix_length xs ys = 0"

definition find_longest_match :: "string \<Rightarrow> string \<Rightarrow> nat \<times> nat \<times> nat" where
  "find_longest_match a b =
     foldl (\<lambda>(bi, bj, bk) (i, j).
              let k = common_prefix_length (drop i a) (drop j b) in
              if k > bk then (i, j, k) else (bi, bj, bk))
           (0, 0, 0) (List.product [0..<length a] [0..<length b])"

fun matching_characters :: "nat \<Rightarrow> string \<Rightarrow> string \<Rightarrow> nat" where
  "matching_characters 0 a b = 0"
| "matching_characters (Suc fuel) a b =
     (case find_longest_match a b of
        (i, j, k) \<Rightarrow>
          if k = 0 then 0
          else matching_characters fuel (take i a) (take j b) + k
                 + matching_characters fuel (drop (i + k) a) (drop (j + k) b))"

definition sequence_matcher_ratio :: "string \<Rightarrow> string \<Rightarrow> rat" where
  "sequence_matcher_ratio a b =
     (if length a + length b = 0 then 1
      else of_nat (2 * matching_characters (length a) a b) / of_nat (length a + length b))"

section \<open>Notions of the specification\<close>

text \<open>
  The lower-cased first name of a full name: its first white-space separated word,
  lower-cased; none for a name without a word.
\<close>

definition first_name :: "string \<Rightarrow> string option" where
  "first_name full_name = (case split full_name of [] \<Rightarrow> None | p # _ \<Rightarrow> Some (lower p))"

text \<open>The full names that a token maps to as a lower-cased first name, in iteration order.\<close>

definition names_with_first :: "string list \<Rightarrow> string \<Rightarrow> string list" where
  "names_with_first names token = filter (\<lambda>n. first_name n = Some token) names"

text \<open>The alphabetic word tokens of a question, lower-cased.\<close>

definition question_tokens :: "string \<Rightarrow> string list" where
  "question_tokens question = findall_alpha [] (lower question)"

text \<open>Some non-empty name occurs, lower-cased, in the lower-cased question.\<close>

definition full_name_match :: "string list \<Rightarrow> string \<Rightarrow> bool" where
  "full_name_match names question =
     list_ex (\<lambda>n. n \<noteq> [] \<and> str_in (lower n) (lower question)) names"

text \<open>Some token of the question maps to exactly one full name.\<close>

definition unique_first_name_match :: "string list \<Rightarrow> string \<Rightarrow> bool" where
  "unique_first_name_match names question =
     list_ex (\<lambda>t. length (names_with_first names t) = 1) (question_tokens question)"

text \<open>
  The ambiguous candidates in the order in which they are found: for every token of
  the question, in order, the names it maps to if they are more than one.
\<close>

definition ambiguous_candidates :: "string list \<Rightarrow> string \<Rightarrow> string list" where
  "ambiguous_candidates names question =
     concat (map (\<lambda>t. if length (names_with_first names t) > 1
                       then names_with_first names t else [])
                 (question_tokens question))"

text \<open>The number of messages of the full collection whose \<^verbatim>\<open>member_name\<close> is the name.\<close>

definition message_count :: "MemberMessage list \<Rightarrow> string \<Rightarrow> nat" where
  "message_count messages name =
     length (filter (\<lambda>m. member_name m = Some name) messages)"

text \<open>
  \<open>c\<close> is the earliest element of \<open>xs\<close> with the highest value of \<open>f\<close>: no element has a
  higher value and every element before the first occurrence of \<open>c\<close> has a lower one.
\<close>

definition is_first_max :: "('a \<Rightarrow> 'b::linorder) \<Rightarrow> 'a list \<Rightarrow> 'a \<Rightarrow> bool" where
  "is_first_max f xs c =
     (c \<in> set xs \<and> list_all (\<lambda>x. f x \<le> f c) xs
        \<and> list_all (\<lambda>x. f x < f c) (takeWhile (\<lambda>x. x \<noteq> c) xs))"

text \<open>
  The text has an occurrence of the car-count pattern that starts after \<open>pre\<close> and has
  the digits \<open>ds\<close>: the digits start at a word boundary, a gap accepted by \<open>gap\<close>
  follows them, and \<^verbatim>\<open>car\<close> follows the gap.
\<close>

definition car_match :: "(string \<Rightarrow> bool) \<Rightarrow> string \<Rightarrow> string \<Rightarrow> string \<Rightarrow> bool" where
  "car_match gap t pre ds =
     (\<exists>ws post.
        t = pre @ ds @ ws @ ''car'' @ post
          \<and> (pre = [] \<or> \<not> is_word (last pre))
          \<and> ds \<noteq> [] \<and> list_all is_digit ds \<and> gap ws)"

definition car_pattern :: "(string \<Rightarrow> bool) \<Rightarrow> string \<Rightarrow> bool" where
  "car_pattern gap t = (\<exists>pre ds. car_match gap t pre ds)"

text \<open>\<open>ds\<close> are the digits of the leftmost occurrence of the pattern in the text.\<close>

definition leftmost_car_match :: "(string \<Rightarrow> bool) \<Rightarrow> string \<Rightarrow> string \<Rightarrow> bool" where
  "leftmost_car_match gap t ds =
     (\<exists>pre. car_match gap t pre ds
        \<and> (\<forall>pre' ds'. car_match gap t pre' ds' \<longrightarrow> length pre \<le> length pre'))"

text \<open>The gap of the specification's sentence: a single space.\<close>

definition single_space :: "string \<Rightarrow> bool" where
  "single_space ws = (ws = '' '')"

text \<open>The gap of \<^verbatim>\<open>\s+\<close>: one or more white-space characters.\<close>

definition white_space :: "string \<Rightarrow> bool" where
  "white_space ws = (ws \<noteq> [] \<and> list_all is_space ws)"

text \<open>The clarification preamble of a fuzzy substitution, with the core answer appended.\<close>

definition clarification :: "string \<Rightarrow> string \<Rightarrow> string \<Rightarrow> string" where
  "clarification requested suggested core =
     ''I couldn't find any member named '' @ requested @ '', but I did find '' @ suggested
       @ ''. Here is what their messages say:'' @ [CHR 0x0A, CHR 0x0A] @ core"

text \<open>A message of a member, for the examples.\<close>

definition message :: "string \<Rightarrow> string \<Rightarrow> MemberMessage" where
  "message name t = \<lparr>member_id = None, member_name = Some name, text = t, created_at = None\<rparr>"

text \<open>
  The common shape of the two loops that keep the best candidate seen so far
  (\<open>candidates_loop\<close> and \<open>suggest_loop\<close>): a candidate replaces the best one only
  when its value is strictly higher.
\<close>

fun first_max_loop :: "('a \<Rightarrow> 'b::linorder) \<Rightarrow> 'a option \<times> 'b \<Rightarrow> 'a list \<Rightarrow> 'a option \<times> 'b" where
  "first_max_loop f st [] = st"
| "first_max_loop f (best, score) (x # xs) =
     (if f x > score then first_max_loop f (Some x, f x) xs
      else first_max_loop f (best, score) xs)"

text \<open>Some token of the question maps to more than one full name.\<close>

definition ambiguous_first_name_match :: "string list \<Rightarrow> string \<Rightarrow> bool" where
  "ambiguous_first_name_match names question =
     list_ex (\<lambda>t. length (names_with_first names t) > 1) (question_tokens question)"

text \<open>
  The similarity of a requested first name with the first name of a member, both
  lower-cased, and the members that have a first name, in iteration order.
\<close>

definition first_name_ratio :: "(string \<Rightarrow> string \<Rightarrow> rat) \<Rightarrow> string \<Rightarrow> string \<Rightarrow> rat" where
  "first_name_ratio ratio requested full_name =
     (case first_name full_name of None \<Rightarrow> 0 | Some f \<Rightarrow> ratio (lower requested) f)"

definition suggestion_candidates :: "string list \<Rightarrow> string list" where
  "suggestion_candidates names = filter (\<lambda>n. first_name n \<noteq> None) names"

section \<open>Basic facts\<close>

lemma py_bind_Inr [simp]: "py_bind (Inr x) f = f x"
  by (simp add: py_bind_def)

lemma py_bind_Inl [simp]: "py_bind (Inl e) f = Inl e"
  by (simp add: py_bind_def)

lemma py_getitem_first: "xs \<noteq> [] \<Longrightarrow> py_getitem xs 0 = Inr (hd xs)"
  by (cases xs) (simp_all add: py_getitem_def)

lemma py_getitem_last: "xs \<noteq> [] \<Longrightarrow> py_getitem xs (- 1) = Inr (last xs)"
  by (cases xs rule: rev_cases) (simp_all add: py_getitem_def nth_append)

lemma py_dict_getitem_Some: "d k = Some v \<Longrightarrow> py_dict_getitem d k = Inr v"
  by (simp add: py_dict_getitem_def)

lemma truthy_Some [simp]: "truthy (Some s) = (s \<noteq> [])"
  by (simp add: truthy_def)

lemma truthy_None [simp]: "truthy None = False"
  by (simp add: truthy_def)

text \<open>re_search\<close>

lemma re_search_sound:
  "re_search m prev t = Some r \<Longrightarrow>
     \<exists>pre s. t = pre @ s \<and> m (if pre = [] then prev else Some (last pre)) s = Some r"
proof (induction t arbitrary: prev)
  case Nil
  then show ?case by simp
next
  case (Cons c cs)
  show ?case
  proof (cases "m prev (c # cs)")
    case (Some r')
    with Cons.prems have "m prev (c # cs) = Some r" by simp
    then have "c # cs = [] @ (c # cs) \<and> m (if [] = [] then prev else Some (last [])) (c # cs) = Some r"
      by simp
    then show ?thesis by blast
  next
    case None
    with Cons.prems have "re_search m (Some c) cs = Some r" by simp
    from Cons.IH [OF this] obtain pre s where
      ps: "cs = pre @ s" "m (if pre = [] then Some c else Some (last pre)) s = Some r"
      by blast
    then have "c # cs = (c # pre) @ s \<and>
        m (if c # pre = [] then prev else Some (last (c # pre))) s = Some r"
      by (cases "pre = []") simp_all
    then show ?thesis by blast
  qed
qed

lemma re_search_complete:
  "m (if pre = [] then prev else Some (last pre)) s \<noteq> None \<Longrightarrow> re_search m prev (pre @ s) \<noteq> None"
proof (induction pre arbitrary: prev)
  case Nil
  then show ?case by (cases s) (auto split: option.splits)
next
  case (Cons c pre)
  have "m (if pre = [] then Some c else Some (last pre)) s \<noteq> None"
    using Cons.prems by (cases "pre = []") simp_all
  from Cons.IH [OF this] show ?case by (simp split: option.splits)
qed

lemma re_search_None:
  "re_search m prev (pre @ s) = None \<Longrightarrow> m (if pre = [] then prev else Some (last pre)) s = None"
  using re_search_complete [of m pre prev s] by blast

lemma space_not_digit: "is_space c \<Longrightarrow> \<not> is_digit c"
  by (auto simp: is_space_def is_digit_def)

lemma digit_is_word: "is_digit c \<Longrightarrow> is_word c"
  by (simp add: is_word_def)

lemma c_not_space: "\<not> is_space CHR ''c''"
  by (simp add: is_space_def)

lemma first_name_split:
  "split name = [] \<Longrightarrow> first_name name = None"
  "split name \<noteq> [] \<Longrightarrow> first_name name = Some (lower (hd (split name)))"
  by (auto simp: first_name_def split: list.splits)

lemma by_first_loop_lookup:
  "\<exists>d'. by_first_loop d names = Inr d' \<and>
     (\<forall>k. d' k = (if names_with_first names k = [] then d k
                  else Some ((case d k of None \<Rightarrow> [] | Some l \<Rightarrow> l) @ names_with_first names k)))"
proof (induction names arbitrary: d)
  case Nil
  then show ?case by (simp add: names_with_first_def)
next
  case (Cons name names)
  show ?case
  proof (cases "split name = []")
    case True
    then have fn: "first_name name = None" by (rule first_name_split)
    have nw: "names_with_first (name # names) k = names_with_first names k" for k
      using fn by (simp add: names_with_first_def)
    have "by_first_loop d (name # names) = by_first_loop d names"
      using True by simp
    with Cons.IH [of d] show ?thesis
      unfolding nw by simp
  next
    case False
    define first where "first = lower (hd (split name))"
    have fn: "first_name name = Some first"
      using False by (simp add: first_name_split first_def)
    define d1 where "d1 = d(first \<mapsto> (case d first of None \<Rightarrow> [] | Some l \<Rightarrow> l) @ [name])"
    have step: "by_first_loop d (name # names) = by_first_loop d1 names"
      using False by (simp add: py_getitem_first Let_def first_def d1_def)
    from Cons.IH [of d1] obtain d' where
      d': "by_first_loop d1 names = Inr d'"
      "\<And>k. d' k = (if names_with_first names k = [] then d1 k
                  else Some ((case d1 k of None \<Rightarrow> [] | Some l \<Rightarrow> l) @ names_with_first names k))"
      by blast
    have "d' k = (if names_with_first (name # names) k = [] then d k
                  else Some ((case d k of None \<Rightarrow> [] | Some l \<Rightarrow> l) @ names_with_first (name # names) k))" for k
      using d'(2) [of k] fn by (auto simp: names_with_first_def d1_def)
    with d'(1) step show ?thesis by simp
  qed
qed

lemma by_first_loop_empty:
  "\<exists>d'. by_first_loop Map.empty names = Inr d' \<and>
     (\<forall>k. d' k = (if names_with_first names k = [] then None else Some (names_with_first names k)))"
proof -
  from by_first_loop_lookup [of Map.empty names] obtain d' where
    d': "by_first_loop Map.empty names = Inr d'"
      "\<And>k. d' k = (if names_with_first names k = [] then Map.empty k
                  else Some ((case Map.empty k of None \<Rightarrow> [] | Some l \<Rightarrow> l) @ names_with_first names k))"
    by blast
  have "d' k = (if names_with_first names k = [] then None else Some (names_with_first names k))" for k
    using d'(2) [of k] by simp
  with d'(1) show ?thesis by blast
qed

lemma unique_first_loop_eq:
  "unique_first_loop d tokens =
     Inr (case find (\<lambda>t. case d t of None \<Rightarrow> False | Some l \<Rightarrow> length l = 1) tokens of
            None \<Rightarrow> None
          | Some t \<Rightarrow> (case d t of None \<Rightarrow> None | Some l \<Rightarrow> Some (hd l)))"
proof (induction tokens)
  case Nil
  then show ?case by simp
next
  case (Cons t ts)
  show ?case
  proof (cases "d t")
    case None
    with Cons show ?thesis by simp
  next
    case (Some l)
    then show ?thesis
      using Cons by (cases l) (simp_all add: py_dict_getitem_Some py_getitem_first)
  qed
qed

lemma candidates_loop_append:
  "candidates_loop counts st (xs @ ys) = candidates_loop counts (candidates_loop counts st xs) ys"
proof (induction xs arbitrary: st)
  case Nil
  then show ?case by simp
next
  case (Cons x xs)
  then show ?case by (cases st) (simp add: Let_def)
qed

lemma popularity_loop_eq:
  "popularity_loop d counts st tokens =
     Inr (candidates_loop counts st
            (concat (map (\<lambda>t. case d t of None \<Rightarrow> [] | Some l \<Rightarrow> if length l > 1 then l else [])
                         tokens)))"
proof (induction tokens arbitrary: st)
  case Nil
  then show ?case by simp
next
  case (Cons t ts)
  show ?case
  proof (cases "d t")
    case None
    with Cons show ?thesis by simp
  next
    case (Some l)
    then show ?thesis
      using Cons by (simp add: py_dict_getitem_Some candidates_loop_append)
  qed
qed

lemma msg_counts_fold:
  "foldl (\<lambda>counts m.
              case member_name m of
                None \<Rightarrow> counts
              | Some n \<Rightarrow>
                  if n = [] then counts
                  else counts(n \<mapsto> (case counts n of None \<Rightarrow> 0 | Some c \<Rightarrow> c) + 1))
           d messages name =
     (if name = [] \<or> message_count messages name = 0 then d name
      else Some ((case d name of None \<Rightarrow> 0 | Some c \<Rightarrow> c) + message_count messages name))"
proof (induction messages arbitrary: d)
  case Nil
  then show ?case by (simp add: message_count_def)
next
  case (Cons m ms)
  show ?case
    by (cases "member_name m") (auto simp: Cons message_count_def)
qed

lemma msg_counts_eq:
  "msg_counts messages name =
     (if name = [] \<or> message_count messages name = 0 then None
      else Some (message_count messages name))"
  unfolding msg_counts_def by (subst msg_counts_fold) simp

lemma unique_names_iff:
  "name \<in> unique_names messages \<longleftrightarrow> name \<noteq> [] \<and> (\<exists>m\<in>set messages. member_name m = Some name)"
proof (induction messages)
  case Nil
  then show ?case by (simp add: unique_names_def truthy_names_def)
next
  case (Cons m ms)
  have "name \<in> unique_names (m # ms) \<longleftrightarrow>
          (member_name m = Some name \<and> name \<noteq> []) \<or> name \<in> unique_names ms"
    by (cases "member_name m") (auto simp: unique_names_def truthy_names_def)
  with Cons show ?case by auto
qed

lemma message_count_pos:
  "name \<in> unique_names messages \<Longrightarrow> 0 < message_count messages name"
  by (auto simp: unique_names_iff message_count_def filter_empty_conv)

lemma filter_messages_nonempty:
  "name \<in> unique_names messages \<Longrightarrow> filter_messages_for_member messages name \<noteq> []"
  by (auto simp: unique_names_iff filter_messages_for_member_def filter_empty_conv)

lemma message_count_filter:
  "message_count messages name = length (filter_messages_for_member messages name)"
  by (simp add: message_count_def filter_messages_for_member_def)

lemma first_max_loop_cong:
  "(\<And>x. x \<in> set xs \<Longrightarrow> f x = g x) \<Longrightarrow> first_max_loop f st xs = first_max_loop g st xs"
proof (induction xs arbitrary: st)
  case Nil
  then show ?case by simp
next
  case (Cons x xs)
  then show ?case by (cases st) simp
qed

lemma first_max_loop_cases:
  "(list_all (\<lambda>x. f x \<le> s) xs \<and> first_max_loop f (b, s) xs = (b, s)) \<or>
   (\<exists>c. first_max_loop f (b, s) xs = (Some c, f c) \<and> s < f c \<and> is_first_max f xs c)"
proof (induction xs arbitrary: b s)
  case Nil
  then show ?case by simp
next
  case (Cons x xs)
  show ?case
  proof (cases "s < f x")
    case True
    from Cons.IH [of "f x" "Some x"] show ?thesis
    proof
      assume a: "list_all (\<lambda>y. f y \<le> f x) xs \<and> first_max_loop f (Some x, f x) xs = (Some x, f x)"
      then have "first_max_loop f (b, s) (x # xs) = (Some x, f x)"
        using True by simp
      moreover have "is_first_max f (x # xs) x"
        using a by (simp add: is_first_max_def)
      ultimately show ?thesis using True by blast
    next
      assume "\<exists>c. first_max_loop f (Some x, f x) xs = (Some c, f c) \<and> f x < f c \<and> is_first_max f xs c"
      then obtain c where c: "first_max_loop f (Some x, f x) xs = (Some c, f c)"
        "f x < f c" "is_first_max f xs c" by blast
      have "x \<noteq> c" using c(2) by auto
      then have "is_first_max f (x # xs) c"
        using c(2,3) by (simp add: is_first_max_def)
      moreover have "first_max_loop f (b, s) (x # xs) = (Some c, f c)"
        using True c(1) by simp
      moreover have "s < f c" using True c(2) by simp
      ultimately show ?thesis by blast
    qed
  next
    case False
    have step: "first_max_loop f (b, s) (x # xs) = first_max_loop f (b, s) xs"
      using False by simp
    have le: "f x \<le> s" using False by simp
    from Cons.IH [of s b] show ?thesis
    proof
      assume "list_all (\<lambda>y. f y \<le> s) xs \<and> first_max_loop f (b, s) xs = (b, s)"
      then have "list_all (\<lambda>y. f y \<le> s) (x # xs) \<and> first_max_loop f (b, s) (x # xs) = (b, s)"
        using le step by simp
      then show ?thesis by blast
    next
      assume "\<exists>c. first_max_loop f (b, s) xs = (Some c, f c) \<and> s < f c \<and> is_first_max f xs c"
      then obtain c where c: "first_max_loop f (b, s) xs = (Some c, f c)"
        "s < f c" "is_first_max f xs c" by blast
      have "x \<noteq> c" using c(2) le by auto
      moreover have "f x < f c" using c(2) le by simp
      ultimately have "is_first_max f (x # xs) c"
        using c(3) by (simp add: is_first_max_def)
      moreover have "first_max_loop f (b, s) (x # xs) = (Some c, f c)"
        using step c(1) by simp
      ultimately show ?thesis using c(2) by blast
    qed
  qed
qed

lemma candidates_loop_first_max:
  "candidates_loop counts st xs =
     first_max_loop (\<lambda>n. case counts n of None \<Rightarrow> 0 | Some c \<Rightarrow> c) st xs"
proof (induction xs arbitrary: st)
  case Nil
  then show ?case by simp
next
  case (Cons x xs)
  then show ?case by (cases st) (simp add: Let_def)
qed

lemma find_member_eq:
  assumes "messages \<noteq> []"
  shows "find_member_name_in_question names question messages =
     (case find (\<lambda>name. name \<noteq> [] \<and> str_in (lower name) (lower question))
             (sorted_longest_first names) of
        Some n \<Rightarrow> Inr (Some n)
      | None \<Rightarrow>
         (case find (\<lambda>t. length (names_with_first names t) = 1) (question_tokens question) of
            Some t \<Rightarrow> Inr (Some (hd (names_with_first names t)))
          | None \<Rightarrow>
             (let best = fst (first_max_loop
                                (\<lambda>n. case msg_counts messages n of None \<Rightarrow> 0 | Some c \<Rightarrow> c)
                                (None, 0) (ambiguous_candidates names question))
              in if truthy best then Inr best else Inr None)))"
proof -
  from by_first_loop_empty [of names] obtain d' where
    d': "by_first_loop Map.empty names = Inr d'"
    "\<And>k. d' k = (if names_with_first names k = [] then None else Some (names_with_first names k))"
    by blast
  have p1: "(\<lambda>t. case d' t of None \<Rightarrow> False | Some l \<Rightarrow> length l = 1)
              = (\<lambda>t. length (names_with_first names t) = 1)"
    by (rule ext) (simp add: d'(2))
  have p2: "(\<lambda>t. case d' t of None \<Rightarrow> [] | Some l \<Rightarrow> if length l > 1 then l else [])
              = (\<lambda>t. if length (names_with_first names t) > 1 then names_with_first names t else [])"
    by (rule ext) (simp add: d'(2))
  have p3: "length (names_with_first names t) = 1 \<Longrightarrow>
              (case d' t of None \<Rightarrow> None | Some l \<Rightarrow> Some (hd l)) = Some (hd (names_with_first names t))" for t
    by (auto simp: d'(2))
  have u: "unique_first_loop d' (question_tokens question) =
      Inr (case find (\<lambda>t. length (names_with_first names t) = 1) (question_tokens question) of
             None \<Rightarrow> None | Some t \<Rightarrow> Some (hd (names_with_first names t)))"
  proof (cases "find (\<lambda>t. length (names_with_first names t) = 1) (question_tokens question)")
    case None
    then show ?thesis by (simp add: unique_first_loop_eq p1)
  next
    case (Some t)
    then have "length (names_with_first names t) = 1"
      by (auto simp: find_Some_iff)
    from p3 [OF this] Some show ?thesis
      by (simp add: unique_first_loop_eq p1)
  qed
  have pl: "popularity_loop d' (msg_counts messages) (None, 0) (question_tokens question) =
      Inr (first_max_loop (\<lambda>n. case msg_counts messages n of None \<Rightarrow> 0 | Some c \<Rightarrow> c)
             (None, 0) (ambiguous_candidates names question))"
    by (simp add: popularity_loop_eq p2 candidates_loop_first_max ambiguous_candidates_def)
  show ?thesis
    using assms
    unfolding find_member_name_in_question_def Let_def question_tokens_def [symmetric]
    by (simp add: d'(1) u pl split: option.splits prod.splits)
qed

lemma split_ws_Nil: "split_ws cur s = [] \<Longrightarrow> cur = []"
  by (induction s arbitrary: cur) (auto split: if_splits)

lemma first_name_nonempty: "first_name n = Some t \<Longrightarrow> n \<noteq> []"
  by (auto simp: first_name_def split_def split: list.splits)

lemma names_with_first_subset: "set (names_with_first names t) \<subseteq> {n \<in> set names. n \<noteq> []}"
  by (auto simp: names_with_first_def dest: first_name_nonempty)

lemma ambiguous_candidates_subset:
  "set (ambiguous_candidates names question) \<subseteq> {n \<in> set names. n \<noteq> []}"
  using names_with_first_subset by (fastforce simp: ambiguous_candidates_def split: if_splits)

lemma find_member_total: "\<exists>r. find_member_name_in_question names question messages = Inr r"
proof (cases "messages = []")
  case True
  then show ?thesis by (simp add: find_member_name_in_question_def)
next
  case False
  show ?thesis
    unfolding find_member_eq [OF False] by (simp add: Let_def split: option.splits)
qed

lemma find_member_in_names:
  assumes "find_member_name_in_question names question messages = Inr (Some n)"
  shows "n \<in> set names \<and> n \<noteq> []"
proof -
  have ne: "messages \<noteq> []"
    using assms by (auto simp: find_member_name_in_question_def)
  show ?thesis
  proof (cases "find (\<lambda>name. name \<noteq> [] \<and> str_in (lower name) (lower question))
             (sorted_longest_first names)")
    case (Some r)
    with assms have "r = n" by (simp add: find_member_eq [OF ne])
    with Some have "n \<in> set (sorted_longest_first names) \<and> n \<noteq> []"
      by (auto simp: find_Some_iff)
    then show ?thesis by (simp add: sorted_longest_first_def)
  next
    case None
    note full = this
    show ?thesis
    proof (cases "find (\<lambda>t. length (names_with_first names t) = 1) (question_tokens question)")
      case (Some t)
      with assms full have n: "n = hd (names_with_first names t)"
        by (simp add: find_member_eq [OF ne])
      from Some have "length (names_with_first names t) = 1"
        by (auto simp: find_Some_iff)
      then have "names_with_first names t \<noteq> []" by auto
      then have "n \<in> set (names_with_first names t)" using n by simp
      with names_with_first_subset show ?thesis by blast
    next
      case None
      define f where "f = (\<lambda>n. case msg_counts messages n of None \<Rightarrow> 0::nat | Some c \<Rightarrow> c)"
      from assms full None have b: "fst (first_max_loop f (None, 0) (ambiguous_candidates names question)) = Some n"
        by (simp add: find_member_eq [OF ne] Let_def f_def split: if_splits)
      from first_max_loop_cases [of f 0 "ambiguous_candidates names question" None]
      have "is_first_max f (ambiguous_candidates names question) n"
        using b by auto
      then have "n \<in> set (ambiguous_candidates names question)"
        by (simp add: is_first_max_def)
      with ambiguous_candidates_subset show ?thesis by blast
    qed
  qed
qed

section \<open>Member resolution: full names first\<close>

text \<open>
  Claim C2. Whenever some distinct non-empty member name occurs, lower-cased, in the
  lower-cased question, the strict resolver returns such a name, whatever the first
  names are: the first hit of the names tried longest first, so that no name that
  occurs in the question is longer than the one returned.
\<close>

theorem full_name_match_wins:
  assumes "is_iteration_order names messages"
    and "n \<in> unique_names messages"
    and "str_in (lower n) (lower question)"
  shows "\<exists>r. find_member_name_in_question names question messages = Inr (Some r)
           \<and> r \<in> unique_names messages
           \<and> str_in (lower r) (lower question)
           \<and> (\<forall>m\<in>unique_names messages.
                 str_in (lower m) (lower question) \<longrightarrow> length m \<le> length r)
           \<and> find (\<lambda>name. name \<noteq> [] \<and> str_in (lower name) (lower question))
                 (sorted_longest_first names) = Some r"
proof -
  define P where "P = (\<lambda>name. name \<noteq> [] \<and> str_in (lower name) (lower question))"
  define xs where "xs = sorted_longest_first names"
  have set_xs: "set xs = unique_names messages"
    using assms(1) by (simp add: xs_def sorted_longest_first_def is_iteration_order_def)
  have sorted_xs: "sorted (map (\<lambda>n. - int (length n)) xs)"
    by (simp add: xs_def sorted_longest_first_def)
  have ne: "messages \<noteq> []"
    using assms(2) by (auto simp: unique_names_iff)
  have "P n" using assms(2,3) by (simp add: P_def unique_names_iff)
  moreover have "n \<in> set xs" using assms(2) set_xs by simp
  ultimately have "find P xs \<noteq> None" by (auto simp: find_None_iff)
  then obtain r where r: "find P xs = Some r" by blast
  then obtain i where i: "i < length xs" "P (xs ! i)" "r = xs ! i" "\<forall>j<i. \<not> P (xs ! j)"
    by (auto simp: find_Some_iff)
  have res: "find_member_name_in_question names question messages = Inr (Some r)"
    using r by (simp add: find_member_eq [OF ne] P_def xs_def)
  have "r \<in> set xs"
    using i(1,3) by (simp only: nth_mem)
  then have r_in: "r \<in> unique_names messages"
    by (simp only: set_xs)
  have r_match: "str_in (lower r) (lower question)"
    using i(2,3) by (simp add: P_def)
  have longest: "length m \<le> length r"
    if m: "m \<in> unique_names messages" "str_in (lower m) (lower question)" for m
  proof -
    have "m \<in> set xs" using m(1) set_xs by simp
    then obtain k where k: "k < length xs" "m = xs ! k"
      by (auto simp: in_set_conv_nth)
    have "P m" using m by (simp add: P_def unique_names_iff)
    have "i \<le> k"
    proof (rule ccontr)
      assume "\<not> i \<le> k"
      then have "k < i" by simp
      with i(4) have "\<not> P (xs ! k)" by blast
      with \<open>P m\<close> k(2) show False by simp
    qed
    with sorted_xs k(1) have "map (\<lambda>n. - int (length n)) xs ! i \<le> map (\<lambda>n. - int (length n)) xs ! k"
      by (simp add: sorted_iff_nth_mono)
    then show ?thesis using i(1,3) k by simp
  qed
  have first_hit: "find (\<lambda>name. name \<noteq> [] \<and> str_in (lower name) (lower question))
                 (sorted_longest_first names) = Some r"
    using r by (simp add: P_def xs_def)
  from res r_in r_match longest first_hit show ?thesis by blast
qed

theorem full_name_match_wins_witness:
  "is_iteration_order [''Sophia Lee'', ''Sophia Al-Farsi'', ''Layla Smith'']
     [message ''Layla Smith'' ''Hello'', message ''Sophia Al-Farsi'' ''Table for two'',
      message ''Sophia Lee'' ''Thanks'']
   \<and> ''Sophia Al-Farsi'' \<in> unique_names
     [message ''Layla Smith'' ''Hello'', message ''Sophia Al-Farsi'' ''Table for two'',
      message ''Sophia Lee'' ''Thanks'']
   \<and> str_in (lower ''Sophia Al-Farsi'') (lower ''What does Sophia Al-Farsi like?'')
   \<and> length (names_with_first [''Sophia Lee'', ''Sophia Al-Farsi'', ''Layla Smith''] ''sophia'') = 2
   \<and> find_member_name_in_question [''Sophia Lee'', ''Sophia Al-Farsi'', ''Layla Smith'']
        ''What does Sophia Al-Farsi like?''
        [message ''Layla Smith'' ''Hello'', message ''Sophia Al-Farsi'' ''Table for two'',
         message ''Sophia Lee'' ''Thanks''] = Inr (Some ''Sophia Al-Farsi'')"
proof -
  let ?names = "[''Sophia Lee'', ''Sophia Al-Farsi'', ''Layla Smith'']"
  let ?msgs = "[message ''Layla Smith'' ''Hello'', message ''Sophia Al-Farsi'' ''Table for two'',
      message ''Sophia Lee'' ''Thanks'']"
  let ?q = "''What does Sophia Al-Farsi like?''"
  have h1: "is_iteration_order ?names ?msgs" by code_simp
  have h2: "''Sophia Al-Farsi'' \<in> unique_names ?msgs" by code_simp
  have h3: "str_in (lower ''Sophia Al-Farsi'') (lower ?q)" by code_simp
  have h4: "length (names_with_first ?names ''sophia'') = 2" by code_simp
  have first: "find (\<lambda>name. name \<noteq> [] \<and> str_in (lower name) (lower ?q))
                 (sorted_longest_first ?names) = Some ''Sophia Al-Farsi''"
    by code_simp
  from full_name_match_wins [OF h1 h2 h3] obtain r where
    r: "find_member_name_in_question ?names ?q ?msgs = Inr (Some r)"
       "find (\<lambda>name. name \<noteq> [] \<and> str_in (lower name) (lower ?q))
                 (sorted_longest_first ?names) = Some r"
    by blast
  from r(2) first have "r = ''Sophia Al-Farsi''" by simp
  with r(1) h1 h2 h3 h4 show ?thesis by blast
qed

section \<open>Member resolution: ambiguous first names\<close>

text \<open>
  Claim C3, as amended. When no full name occurs in the question, no token of the
  question maps to exactly one full name, and some token maps to more than one, the
  resolver returns the ambiguous candidate with the highest message count, and among
  the candidates with that count the one found first.
\<close>

theorem ambiguous_first_name_by_popularity:
  assumes "is_iteration_order names messages"
    and "\<not> full_name_match names question"
    and "\<not> unique_first_name_match names question"
    and "ambiguous_first_name_match names question"
  shows "\<exists>c. find_member_name_in_question names question messages = Inr (Some c)
           \<and> is_first_max (message_count messages) (ambiguous_candidates names question) c"
proof -
  define cands where "cands = ambiguous_candidates names question"
  define f where "f = (\<lambda>n. case msg_counts messages n of None \<Rightarrow> 0::nat | Some c \<Rightarrow> c)"
  have names_set: "set names = unique_names messages"
    using assms(1) by (simp add: is_iteration_order_def)
  from assms(4) obtain t where t: "t \<in> set (question_tokens question)"
      "1 < length (names_with_first names t)"
    by (auto simp: ambiguous_first_name_match_def list_ex_iff)
  then have "set (names_with_first names t) \<subseteq> set cands"
    by (auto simp: cands_def ambiguous_candidates_def)
  moreover have "names_with_first names t \<noteq> []" using t(2) by auto
  ultimately have cands_ne: "cands \<noteq> []" by auto
  have cands_sub: "set cands \<subseteq> unique_names messages"
    using ambiguous_candidates_subset [of names question] names_set by (auto simp: cands_def)
  then have ne: "messages \<noteq> []"
    using cands_ne by (cases cands) (auto simp: unique_names_iff)
  have f_eq: "f x = message_count messages x" if "x \<in> set cands" for x
  proof -
    from that cands_sub have x: "x \<in> unique_names messages" by blast
    then have "x \<noteq> []" by (simp add: unique_names_iff)
    with message_count_pos [OF x] show ?thesis
      by (simp add: f_def msg_counts_eq)
  qed
  have loop: "first_max_loop f (None, 0) cands = first_max_loop (message_count messages) (None, 0) cands"
    by (rule first_max_loop_cong) (rule f_eq)
  have not_all: "\<not> list_all (\<lambda>x. message_count messages x \<le> 0) cands"
  proof -
    from cands_ne obtain x where x: "x \<in> set cands" by (cases cands) auto
    with cands_sub have "0 < message_count messages x"
      by (auto intro: message_count_pos)
    with x show ?thesis by (auto simp: list_all_iff)
  qed
  from first_max_loop_cases [of "message_count messages" 0 cands None] not_all
  obtain c where c: "first_max_loop (message_count messages) (None, 0) cands
      = (Some c, message_count messages c)"
      "is_first_max (message_count messages) cands c"
    by blast
  have "c \<in> set cands" using c(2) by (simp add: is_first_max_def)
  with cands_sub have "c \<noteq> []" by (auto simp: unique_names_iff)
  have full: "find (\<lambda>name. name \<noteq> [] \<and> str_in (lower name) (lower question))
             (sorted_longest_first names) = None"
    using assms(2) by (auto simp: full_name_match_def find_None_iff list_ex_iff sorted_longest_first_def)
  have uniq: "find (\<lambda>t. length (names_with_first names t) = 1) (question_tokens question) = None"
    using assms(3) by (auto simp: unique_first_name_match_def find_None_iff list_ex_iff)
  have "find_member_name_in_question names question messages = Inr (Some c)"
    unfolding find_member_eq [OF ne] full uniq
    using loop c(1) \<open>c \<noteq> []\<close> by (simp add: f_def [symmetric] cands_def [symmetric])
  with c(2) show ?thesis by (auto simp: cands_def)
qed

theorem ambiguous_first_name_by_popularity_witness:
  "is_iteration_order [''Layla Smith'', ''Layla Jones'']
     [message ''Layla Smith'' ''Hi'', message ''Layla Jones'' ''Hello'',
      message ''Layla Jones'' ''See you'']
   \<and> \<not> full_name_match [''Layla Smith'', ''Layla Jones''] ''What does Layla want?''
   \<and> \<not> unique_first_name_match [''Layla Smith'', ''Layla Jones''] ''What does Layla want?''
   \<and> ambiguous_first_name_match [''Layla Smith'', ''Layla Jones''] ''What does Layla want?''
   \<and> find_member_name_in_question [''Layla Smith'', ''Layla Jones''] ''What does Layla want?''
        [message ''Layla Smith'' ''Hi'', message ''Layla Jones'' ''Hello'',
         message ''Layla Jones'' ''See you''] = Inr (Some ''Layla Jones'')
   \<and> is_first_max
        (message_count [message ''Layla Smith'' ''Hi'', message ''Layla Jones'' ''Hello'',
                        message ''Layla Jones'' ''See you''])
        (ambiguous_candidates [''Layla Smith'', ''Layla Jones''] ''What does Layla want?'')
        ''Layla Jones''"
proof -
  let ?names = "[''Layla Smith'', ''Layla Jones'']"
  let ?msgs = "[message ''Layla Smith'' ''Hi'', message ''Layla Jones'' ''Hello'',
      message ''Layla Jones'' ''See you'']"
  let ?q = "''What does Layla want?''"
  have h1: "is_iteration_order ?names ?msgs" by code_simp
  have h2: "\<not> full_name_match ?names ?q" by code_simp
  have h3: "\<not> unique_first_name_match ?names ?q" by code_simp
  have h4: "ambiguous_first_name_match ?names ?q" by code_simp
  have res: "find_member_name_in_question ?names ?q ?msgs = Inr (Some ''Layla Jones'')"
    by code_simp
  from ambiguous_first_name_by_popularity [OF h1 h2 h3 h4] obtain c where
    c: "find_member_name_in_question ?names ?q ?msgs = Inr (Some c)"
       "is_first_max (message_count ?msgs) (ambiguous_candidates ?names ?q) c"
    by blast
  from c(1) res have "c = ''Layla Jones''" by simp
  with c(2) h1 h2 h3 h4 res show ?thesis by blast
qed

text \<open>
  The claim as it is written does not ask that no token maps to exactly one full
  name. With the members Layla Smith, Layla Jones and Sophia Lee, the question
  \<^verbatim>\<open>Do Layla and Sophia talk?\<close> has no full-name match and its token \<^verbatim>\<open>layla\<close> maps to
  two names, but step 2a returns Sophia Lee, the only name of the token \<^verbatim>\<open>sophia\<close>,
  who is no ambiguous candidate.
\<close>

theorem ambiguous_first_name_counterexample:
  "is_iteration_order [''Layla Smith'', ''Layla Jones'', ''Sophia Lee'']
     [message ''Layla Smith'' ''Hi'', message ''Layla Jones'' ''Hello'',
      message ''Layla Jones'' ''See you'', message ''Sophia Lee'' ''Thanks'']
   \<and> \<not> full_name_match [''Layla Smith'', ''Layla Jones'', ''Sophia Lee'']
         ''Do Layla and Sophia talk?''
   \<and> ambiguous_first_name_match [''Layla Smith'', ''Layla Jones'', ''Sophia Lee'']
         ''Do Layla and Sophia talk?''
   \<and> ambiguous_candidates [''Layla Smith'', ''Layla Jones'', ''Sophia Lee'']
         ''Do Layla and Sophia talk?'' = [''Layla Smith'', ''Layla Jones'']
   \<and> find_member_name_in_question [''Layla Smith'', ''Layla Jones'', ''Sophia Lee'']
        ''Do Layla and Sophia talk?''
        [message ''Layla Smith'' ''Hi'', message ''Layla Jones'' ''Hello'',
         message ''Layla Jones'' ''See you'', message ''Sophia Lee'' ''Thanks'']
        = Inr (Some ''Sophia Lee'')
   \<and> \<not> is_first_max
        (message_count [message ''Layla Smith'' ''Hi'', message ''Layla Jones'' ''Hello'',
                        message ''Layla Jones'' ''See you'', message ''Sophia Lee'' ''Thanks''])
        (ambiguous_candidates [''Layla Smith'', ''Layla Jones'', ''Sophia Lee'']
           ''Do Layla and Sophia talk?'')
        ''Sophia Lee''"
  by code_simp

section \<open>The empty collection\<close>

text \<open>
  Claim C9. For every question, the answer on the empty message collection is the
  fixed message that nothing was retrieved.
\<close>

theorem empty_collection_answer:
  "answer_question_baseline ratio names1 names2 question []
     = Inr ''I couldn't retrieve any member messages.''"
  by (simp add: answer_question_baseline_def)

section \<open>No function of the engine raises\<close>

lemma capitalized_loop_ok:
  "\<exists>r. capitalized_loop toks = Inr r \<and> (\<forall>s. r = Some s \<longrightarrow> s \<noteq> [])"
proof (induction toks)
  case Nil
  then show ?case by simp
next
  case (Cons tok toks)
  show ?case
  proof (cases "tok = []")
    case True
    with Cons show ?thesis by simp
  next
    case False
    then have "py_getitem tok 0 = Inr (hd tok)" by (rule py_getitem_first)
    with Cons False show ?thesis by (simp add: Let_def)
  qed
qed

lemma possessive_at_nonempty: "possessive_at prev s = Some g \<Longrightarrow> g \<noteq> []"
  by (auto simp: possessive_at_def Let_def split: if_splits)

lemma extract_requested_first_name_ok:
  "\<exists>r. extract_requested_first_name question = Inr r \<and> (\<forall>s. r = Some s \<longrightarrow> s \<noteq> [])"
proof (cases "re_search possessive_at None question")
  case None
  with capitalized_loop_ok [of "drop 1 (split question)"] show ?thesis
    by (simp add: extract_requested_first_name_def)
next
  case (Some g)
  from re_search_sound [OF Some] obtain pre s where
    "possessive_at (if pre = [] then None else Some (last pre)) s = Some g" by blast
  then have "g \<noteq> []" by (rule possessive_at_nonempty)
  with Some show ?thesis by (simp add: extract_requested_first_name_def)
qed

lemma py_int_digits:
  "s \<noteq> [] \<Longrightarrow> list_all is_digit s \<Longrightarrow> length s \<le> int_max_str_digits \<Longrightarrow>
     \<exists>n. py_int s = Inr n"
  by (simp add: py_int_def)

lemma py_int_error: "py_int s = Inl e \<Longrightarrow> e = ValueError"
  by (auto simp: py_int_def split: if_splits)

lemma extract_car_count_ok: "\<exists>c. extract_car_count_from_text t = Inr c"
proof (cases "re_search car_count_at None (lower t)")
  case None
  then show ?thesis by (simp add: extract_car_count_from_text_def)
next
  case (Some g)
  show ?thesis
  proof (cases "py_int g")
    case (Inl e)
    then have "e = ValueError" by (rule py_int_error)
    with Some Inl show ?thesis by (simp add: extract_car_count_from_text_def)
  next
    case (Inr n)
    with Some show ?thesis by (simp add: extract_car_count_from_text_def)
  qed
qed

lemma car_count_loop_ok: "\<exists>s. car_count_loop name msgs = Inr s"
proof (induction msgs)
  case Nil
  then show ?case by simp
next
  case (Cons m ms)
  from extract_car_count_ok [of "text m"] obtain c where
    c: "extract_car_count_from_text (text m) = Inr c" by blast
  with Cons show ?case by (cases c) simp_all
qed

lemma answer_car_count_ok: "\<exists>s. answer_car_count name msgs = Inr s"
  by (simp add: answer_car_count_def car_count_loop_ok)

lemma answer_trip_when_ok: "\<exists>s. answer_trip_when question name msgs = Inr s"
  by (simp add: answer_trip_when_def Let_def py_getitem_last split: option.splits)

lemma answer_favorite_restaurants_ok: "\<exists>s. answer_favorite_restaurants name msgs = Inr s"
  by (simp add: answer_favorite_restaurants_def Let_def py_getitem_first)

lemma core_answer_ok:
  "member_msgs \<noteq> [] \<Longrightarrow> \<exists>s. core_answer question name member_msgs = Inr s"
  by (simp add: core_answer_def Let_def answer_car_count_ok answer_trip_when_ok
        answer_favorite_restaurants_ok py_getitem_last)

lemma suggest_loop_eq:
  "suggest_loop ratio (lower requested) st names =
     Inr (first_max_loop (first_name_ratio ratio requested) st (suggestion_candidates names))"
proof (induction names arbitrary: st)
  case Nil
  then show ?case by (simp add: suggestion_candidates_def)
next
  case (Cons n ns)
  obtain b s where st: "st = (b, s)" by (cases st)
  show ?case
  proof (cases "split n = []")
    case True
    then have "first_name n = None" by (rule first_name_split)
    with True Cons st show ?thesis by (simp add: suggestion_candidates_def)
  next
    case False
    then have fn: "first_name n = Some (lower (hd (split n)))" by (rule first_name_split)
    have r: "first_name_ratio ratio requested n = ratio (lower requested) (lower (hd (split n)))"
      by (simp add: first_name_ratio_def fn)
    show ?thesis
      using False fn Cons st
      by (simp add: suggestion_candidates_def py_getitem_first Let_def r)
  qed
qed

lemma suggest_eq:
  "suggest_similar_member_by_first_name ratio names requested min_similarity =
     (let (best, score) = first_max_loop (first_name_ratio ratio requested) (None, 0)
                            (suggestion_candidates names)
      in if truthy best \<and> min_similarity \<le> score then Inr best else Inr None)"
  by (simp add: suggest_similar_member_by_first_name_def Let_def suggest_loop_eq)

lemma suggestion_candidates_subset:
  "set (suggestion_candidates names) \<subseteq> {n \<in> set names. n \<noteq> []}"
  by (auto simp: suggestion_candidates_def dest: first_name_nonempty)

lemma suggest_ok:
  "\<exists>r. suggest_similar_member_by_first_name ratio names requested min_similarity = Inr r"
  by (simp add: suggest_eq Let_def split: prod.splits)

lemma suggest_cases:
  assumes "0 < min_similarity"
  shows "(suggest_similar_member_by_first_name ratio names requested min_similarity = Inr None
            \<and> list_all (\<lambda>n. first_name_ratio ratio requested n < min_similarity)
                 (suggestion_candidates names))
       \<or> (\<exists>c. suggest_similar_member_by_first_name ratio names requested min_similarity
                  = Inr (Some c)
              \<and> is_first_max (first_name_ratio ratio requested) (suggestion_candidates names) c
              \<and> min_similarity \<le> first_name_ratio ratio requested c)"
proof -
  define f where "f = first_name_ratio ratio requested"
  define cands where "cands = suggestion_candidates names"
  from first_max_loop_cases [of f 0 cands None] show ?thesis
  proof
    assume a: "list_all (\<lambda>x. f x \<le> 0) cands \<and> first_max_loop f (None, 0) cands = (None, 0)"
    then have "suggest_similar_member_by_first_name ratio names requested min_similarity = Inr None"
      by (simp add: suggest_eq f_def cands_def)
    moreover have "list_all (\<lambda>n. f n < min_similarity) cands"
      using a assms by (auto simp: list_all_iff)
    ultimately show ?thesis by (simp add: f_def cands_def)
  next
    assume "\<exists>c. first_max_loop f (None, 0) cands = (Some c, f c) \<and> 0 < f c \<and> is_first_max f cands c"
    then obtain c where c: "first_max_loop f (None, 0) cands = (Some c, f c)"
      "is_first_max f cands c" by blast
    have "c \<in> set cands" using c(2) by (simp add: is_first_max_def)
    then have c_ne: "c \<noteq> []"
      using suggestion_candidates_subset [of names] by (auto simp: cands_def)
    show ?thesis
    proof (cases "min_similarity \<le> f c")
      case True
      then have "suggest_similar_member_by_first_name ratio names requested min_similarity
                   = Inr (Some c)"
        using c(1) c_ne by (simp add: suggest_eq f_def cands_def)
      with c(2) True show ?thesis by (auto simp: f_def cands_def)
    next
      case False
      then have "suggest_similar_member_by_first_name ratio names requested min_similarity
                   = Inr None"
        using c(1) by (simp add: suggest_eq f_def cands_def)
      moreover have "list_all (\<lambda>n. f n < min_similarity) cands"
        using c(2) False by (auto simp: is_first_max_def list_all_iff)
      ultimately show ?thesis by (simp add: f_def cands_def)
    qed
  qed
qed

lemma suggest_in_names:
  assumes "suggest_similar_member_by_first_name ratio names requested min_similarity = Inr (Some c)"
  shows "c \<in> set names \<and> c \<noteq> []"
proof -
  define f where "f = first_name_ratio ratio requested"
  define cands where "cands = suggestion_candidates names"
  from assms have b: "fst (first_max_loop f (None, 0) cands) = Some c"
    by (auto simp: suggest_eq f_def cands_def Let_def split: prod.splits if_splits)
  from first_max_loop_cases [of f 0 cands None] b have "is_first_max f cands c"
    by auto
  then have "c \<in> set cands" by (simp add: is_first_max_def)
  then show ?thesis
    using suggestion_candidates_subset [of names] by (auto simp: cands_def)
qed

text \<open>The orchestrator after the two resolution steps, by the outcome of the resolution.\<close>

lemma answer_strict:
  assumes "find_member_name_in_question names1 question messages = Inr (Some n)"
    and "filter_messages_for_member messages n \<noteq> []"
  shows "answer_question_baseline ratio names1 names2 question messages
           = core_answer question n (filter_messages_for_member messages n)"
proof -
  have ne: "messages \<noteq> []" using assms(2) by (auto simp: filter_messages_for_member_def)
  have n_ne: "n \<noteq> []" using find_member_in_names [OF assms(1)] by simp
  from extract_requested_first_name_ok [of question] obtain req where
    req: "extract_requested_first_name question = Inr req" by blast
  from core_answer_ok [OF assms(2)] obtain core where
    core: "core_answer question n (filter_messages_for_member messages n) = Inr core" by blast
  show ?thesis
    using ne n_ne assms req core
    by (simp add: answer_question_baseline_def Let_def)
qed

lemma answer_unresolved:
  assumes "messages \<noteq> []"
    and "find_member_name_in_question names1 question messages = Inr None"
    and "extract_requested_first_name question = Inr req"
    and "req = None \<or> suggest_similar_member_by_first_name ratio names2
           (case req of Some r \<Rightarrow> r | None \<Rightarrow> []) (4 / 5) = Inr None"
  shows "answer_question_baseline ratio names1 names2 question messages
           = Inr ''I couldn't identify which member the question is about.''"
  using assms by (cases req) (auto simp: answer_question_baseline_def Let_def)

lemma answer_suggested:
  assumes "messages \<noteq> []"
    and "find_member_name_in_question names1 question messages = Inr None"
    and "extract_requested_first_name question = Inr (Some r)"
    and "suggest_similar_member_by_first_name ratio names2 r (4 / 5) = Inr (Some s)"
    and "core_answer question s (filter_messages_for_member messages s) = Inr core"
    and "filter_messages_for_member messages s \<noteq> []"
  shows "answer_question_baseline ratio names1 names2 question messages
           = Inr (clarification r s core)"
proof -
  have s_ne: "s \<noteq> []" using suggest_in_names [OF assms(4)] by simp
  from extract_requested_first_name_ok [of question] assms(3) have r_ne: "r \<noteq> []" by auto
  show ?thesis
    using assms s_ne r_ne
    by (simp add: answer_question_baseline_def Let_def clarification_def)
qed

lemma answer_ok:
  "\<exists>s. answer_question_baseline ratio names1 names2 question messages = Inr s"
proof (cases "messages = []")
  case True
  then show ?thesis by (simp add: answer_question_baseline_def)
next
  case False
  from find_member_total [of names1 question messages] obtain strict where
    strict: "find_member_name_in_question names1 question messages = Inr strict" by blast
  from extract_requested_first_name_ok [of question] obtain req where
    req: "extract_requested_first_name question = Inr req" by blast
  define third where "third =
    (if \<not> truthy strict \<and> truthy req then
       suggest_similar_member_by_first_name ratio names2
         (case req of Some r \<Rightarrow> r | None \<Rightarrow> []) (4 / 5)
     else Inr None)"
  have "\<exists>sug. third = Inr sug"
    unfolding third_def using suggest_ok by simp
  then obtain sug where sug: "third = Inr sug" by blast
  define member where "member = (if truthy sug then sug else strict)"
  define name where "name = (case member of Some n \<Rightarrow> n | None \<Rightarrow> [])"
  have unfold: "answer_question_baseline ratio names1 names2 question messages =
    (if \<not> truthy member then Inr ''I couldn't identify which member the question is about.''
     else if filter_messages_for_member messages name = []
       then Inr (''I couldn't find any messages for '' @ name @ ''.'')
     else py_bind (core_answer question name (filter_messages_for_member messages name))
       (\<lambda>core. if truthy sug \<and> truthy req then
           Inr (''I couldn't find any member named ''
                  @ (case req of Some r \<Rightarrow> r | None \<Rightarrow> [])
                  @ '', but I did find ''
                  @ (case sug of Some n \<Rightarrow> n | None \<Rightarrow> [])
                  @ ''. Here is what their messages say:'' @ [CHR 0x0A, CHR 0x0A] @ core)
         else Inr core))"
    using False strict req sug
    by (simp add: answer_question_baseline_def Let_def third_def [symmetric]
          member_def name_def)
  show ?thesis
  proof (cases "\<not> truthy member \<or> filter_messages_for_member messages name = []")
    case True
    then show ?thesis unfolding unfold by auto
  next
    case False
    then have "filter_messages_for_member messages name \<noteq> []" by simp
    from core_answer_ok [OF this] obtain core where
      "core_answer question name (filter_messages_for_member messages name) = Inr core"
      by blast
    with False show ?thesis unfolding unfold by simp
  qed
qed

text \<open>
  Claim C1. For every question and every list of messages (and every similarity
  function and iteration order) the answer is a string, never an exception. The
  failure modes are answers too: the empty collection and the unresolved member give
  their fixed messages, and an extractor that finds no matching message gives its
  not-found message (\<open>q1\<close> and \<open>q2\<close> are questions without and with a destination).
\<close>

theorem answer_never_raises:
  "(\<exists>s. answer_question_baseline ratio names1 names2 question messages = Inr s)
   \<and> answer_question_baseline ratio names1 names2 question []
        = Inr ''I couldn't retrieve any member messages.''
   \<and> (messages \<noteq> []
        \<and> find_member_name_in_question names1 question messages = Inr None
        \<and> extract_requested_first_name question = Inr req
        \<and> (req = None
            \<or> suggest_similar_member_by_first_name ratio names2
                 (case req of Some r \<Rightarrow> r | None \<Rightarrow> []) (4 / 5) = Inr None)
      \<longrightarrow> answer_question_baseline ratio names1 names2 question messages
            = Inr ''I couldn't identify which member the question is about.'')
   \<and> (list_all (\<lambda>m. extract_car_count_from_text (text m) = Inr None) msgs
      \<longrightarrow> answer_car_count name msgs
            = Inr (''I couldn't find how many cars '' @ name @ '' has in their messages.''))
   \<and> (extract_destination_from_question q1 = None
        \<and> list_all (\<lambda>m. \<not> str_in ''trip'' (lower (text m))) msgs
      \<longrightarrow> answer_trip_when q1 name msgs
            = Inr (''I couldn't find any trip details for '' @ name @ ''.''))
   \<and> (extract_destination_from_question q2 = Some d \<and> d \<noteq> []
        \<and> list_all (\<lambda>m. \<not> str_in (lower d) (lower (text m))) msgs
      \<longrightarrow> answer_trip_when q2 name msgs
            = Inr (''I couldn't find any messages from '' @ name @ '' about a trip to ''
                     @ d @ ''.''))
   \<and> (list_all (\<lambda>m. \<not> (str_in ''favorite'' (lower (text m))
                          \<and> str_in ''restaurant'' (lower (text m)))) msgs
      \<longrightarrow> answer_favorite_restaurants name msgs
            = Inr (''I couldn't find any messages about '' @ name @ [CHR 0x27]
                     @ ''s favorite restaurants.''))"
proof -
  have car: "car_count_loop name ms
      = Inr (''I couldn't find how many cars '' @ name @ '' has in their messages.'')"
    if "list_all (\<lambda>m. extract_car_count_from_text (text m) = Inr None) ms" for ms
    using that by (induction ms) simp_all
  have car': "answer_car_count name msgs
      = Inr (''I couldn't find how many cars '' @ name @ '' has in their messages.'')"
    if "list_all (\<lambda>m. extract_car_count_from_text (text m) = Inr None) msgs"
    unfolding answer_car_count_def using that by (intro car) (simp add: list_all_iff)
  have f1: "filter (\<lambda>m. str_in ''trip'' (lower (text m))) msgs = []"
    if "list_all (\<lambda>m. \<not> str_in ''trip'' (lower (text m))) msgs"
    using that by (simp add: filter_empty_conv list_all_iff)
  have f2: "filter (\<lambda>m. str_in (lower d) (lower (text m))) msgs = []"
    if "list_all (\<lambda>m. \<not> str_in (lower d) (lower (text m))) msgs"
    using that by (simp add: filter_empty_conv list_all_iff)
  have f3: "filter (\<lambda>m. str_in ''favorite'' (lower (text m))
                          \<and> str_in ''restaurant'' (lower (text m))) msgs = []"
    if "list_all (\<lambda>m. \<not> (str_in ''favorite'' (lower (text m))
                          \<and> str_in ''restaurant'' (lower (text m)))) msgs"
    using that by (simp add: filter_empty_conv list_all_iff)
  show ?thesis
    using answer_ok [of ratio names1 names2 question messages]
      answer_unresolved [of messages names1 question req ratio names2]
      car'
    by (auto simp: answer_question_baseline_def [of _ _ _ _ "[]"] answer_trip_when_def
          answer_favorite_restaurants_def Let_def f1 f2 f3)
qed


theorem answer_never_raises_witness:
  "[message ''Bob'' ''I like tea''] \<noteq> []
   \<and> find_member_name_in_question [''Bob''] ''when is the trip to Rome?''
        [message ''Bob'' ''I like tea''] = Inr None
   \<and> extract_requested_first_name ''when is the trip to Rome?'' = Inr (Some ''Rome'')
   \<and> suggest_similar_member_by_first_name sequence_matcher_ratio [''Bob''] ''Rome'' (4 / 5)
        = Inr None
   \<and> answer_question_baseline sequence_matcher_ratio [''Bob''] [''Bob'']
        ''when is the trip to Rome?'' [message ''Bob'' ''I like tea'']
        = Inr ''I couldn't identify which member the question is about.''
   \<and> list_all (\<lambda>m. extract_car_count_from_text (text m) = Inr None)
        [message ''Bob'' ''I like tea'']
   \<and> answer_car_count ''Bob'' [message ''Bob'' ''I like tea'']
        = Inr ''I couldn't find how many cars Bob has in their messages.''
   \<and> extract_destination_from_question ''when is the trip?'' = None
   \<and> list_all (\<lambda>m. \<not> str_in ''trip'' (lower (text m))) [message ''Bob'' ''I like tea'']
   \<and> answer_trip_when ''when is the trip?'' ''Bob'' [message ''Bob'' ''I like tea'']
        = Inr ''I couldn't find any trip details for Bob.''
   \<and> extract_destination_from_question ''when is the trip to Rome?'' = Some ''Rome''
   \<and> list_all (\<lambda>m. \<not> str_in (lower ''Rome'') (lower (text m)))
        [message ''Bob'' ''I like tea'']
   \<and> answer_trip_when ''when is the trip to Rome?'' ''Bob'' [message ''Bob'' ''I like tea'']
        = Inr ''I couldn't find any messages from Bob about a trip to Rome.''
   \<and> list_all (\<lambda>m. \<not> (str_in ''favorite'' (lower (text m))
                          \<and> str_in ''restaurant'' (lower (text m))))
        [message ''Bob'' ''I like tea'']
   \<and> answer_favorite_restaurants ''Bob'' [message ''Bob'' ''I like tea'']
        = Inr ''I couldn't find any messages about Bob's favorite restaurants.''"
proof -
  let ?msgs = "[message ''Bob'' ''I like tea'']"
  let ?q = "''when is the trip to Rome?''"
  have h1: "find_member_name_in_question [''Bob''] ?q ?msgs = Inr None" by code_simp
  have h2: "extract_requested_first_name ?q = Inr (Some ''Rome'')" by code_simp
  have h3: "suggest_similar_member_by_first_name sequence_matcher_ratio [''Bob''] ''Rome'' (4 / 5)
        = Inr None" by code_simp
  have h4: "list_all (\<lambda>m. extract_car_count_from_text (text m) = Inr None) ?msgs"
    by code_simp
  have h5: "extract_destination_from_question ''when is the trip?'' = None" by code_simp
  have h6: "list_all (\<lambda>m. \<not> str_in ''trip'' (lower (text m))) ?msgs" by code_simp
  have h7: "extract_destination_from_question ?q = Some ''Rome''" by code_simp
  have h8: "list_all (\<lambda>m. \<not> str_in (lower ''Rome'') (lower (text m))) ?msgs" by code_simp
  have h9: "list_all (\<lambda>m. \<not> (str_in ''favorite'' (lower (text m))
                          \<and> str_in ''restaurant'' (lower (text m)))) ?msgs" by code_simp
  from answer_never_raises [of sequence_matcher_ratio "[''Bob'']" "[''Bob'']" ?q ?msgs
      "Some ''Rome''" ?msgs "''Bob''" "''when is the trip?''" ?q "''Rome''"]
    h1 h2 h3 h4 h5 h6 h7 h8 h9
  show ?thesis by simp
qed

section \<open>The fallback for a member without messages\<close>

text \<open>
  Claim C10, as amended. Every member name produced by strict resolution or by
  fuzzy suggestion is one of the non-empty member names of the collection, so the
  messages of a resolved member are never empty and the fallback for a member
  without messages is never taken: the answer is the message of the empty collection,
  the message of the unresolved member, or the core answer of a member of the
  collection, alone or after the clarification preamble.
\<close>

theorem resolved_member_has_messages:
  assumes "is_iteration_order names1 messages"
    and "is_iteration_order names2 messages"
  shows "(find_member_name_in_question names1 question messages = Inr (Some n)
            \<longrightarrow> n \<in> unique_names messages \<and> filter_messages_for_member messages n \<noteq> [])
       \<and> (suggest_similar_member_by_first_name ratio names2 requested min_similarity
              = Inr (Some n)
            \<longrightarrow> n \<in> unique_names messages \<and> filter_messages_for_member messages n \<noteq> [])
       \<and> (answer_question_baseline ratio names1 names2 question messages
              = Inr ''I couldn't retrieve any member messages.''
          \<or> answer_question_baseline ratio names1 names2 question messages
              = Inr ''I couldn't identify which member the question is about.''
          \<or> (\<exists>m core. m \<in> unique_names messages
                \<and> filter_messages_for_member messages m \<noteq> []
                \<and> core_answer question m (filter_messages_for_member messages m) = Inr core
                \<and> (answer_question_baseline ratio names1 names2 question messages = Inr core
                    \<or> (\<exists>r. answer_question_baseline ratio names1 names2 question messages
                              = Inr (clarification r m core)))))"
proof -
  have set1: "set names1 = unique_names messages"
    using assms(1) by (simp add: is_iteration_order_def)
  have set2: "set names2 = unique_names messages"
    using assms(2) by (simp add: is_iteration_order_def)
  have strict: "k \<in> unique_names messages \<and> filter_messages_for_member messages k \<noteq> []"
    if "find_member_name_in_question names1 question messages = Inr (Some k)" for k
    using find_member_in_names [OF that] set1 filter_messages_nonempty by auto
  have fuzzy: "k \<in> unique_names messages \<and> filter_messages_for_member messages k \<noteq> []"
    if "suggest_similar_member_by_first_name ratio names2 rq ms = Inr (Some k)" for k rq ms
    using suggest_in_names [OF that] set2 filter_messages_nonempty by auto
  let ?answer = "answer_question_baseline ratio names1 names2 question messages"
  let ?third = "\<exists>m core. m \<in> unique_names messages
                \<and> filter_messages_for_member messages m \<noteq> []
                \<and> core_answer question m (filter_messages_for_member messages m) = Inr core
                \<and> (?answer = Inr core \<or> (\<exists>r. ?answer = Inr (clarification r m core)))"
  have answer: "?answer = Inr ''I couldn't retrieve any member messages.''
          \<or> ?answer = Inr ''I couldn't identify which member the question is about.''
          \<or> ?third"
  proof (cases "messages = []")
    case True
    then show ?thesis by (simp add: answer_question_baseline_def)
  next
    case False
    from find_member_total [of names1 question messages] obtain st where
      st: "find_member_name_in_question names1 question messages = Inr st" by blast
    from extract_requested_first_name_ok [of question] obtain req where
      req: "extract_requested_first_name question = Inr req" by blast
    show ?thesis
    proof (cases st)
      case (Some k)
      with st strict have k: "k \<in> unique_names messages"
        "filter_messages_for_member messages k \<noteq> []" by auto
      from core_answer_ok [OF k(2)] obtain core where
        core: "core_answer question k (filter_messages_for_member messages k) = Inr core"
        by blast
      have "?answer = Inr core"
        using answer_strict [of names1 question messages k ratio names2] st Some k(2) core
        by simp
      with k core have ?third by blast
      then show ?thesis by blast
    next
      case None
      note st_none = this
      show ?thesis
      proof (cases req)
        case None
        with answer_unresolved [OF False _ req, where ?names1.0 = names1 and ratio = ratio and ?names2.0 = names2] st st_none
        show ?thesis by simp
      next
        case (Some r)
        have pos: "(0::rat) < 4 / 5" by simp
        from suggest_cases [OF pos, of ratio names2 r]
        show ?thesis
        proof
          assume "suggest_similar_member_by_first_name ratio names2 r (4 / 5) = Inr None
            \<and> list_all (\<lambda>n. first_name_ratio ratio r n < 4 / 5) (suggestion_candidates names2)"
          with answer_unresolved [OF False _ req, where ?names1.0 = names1 and ratio = ratio and ?names2.0 = names2] st st_none Some
          show ?thesis by simp
        next
          assume "\<exists>c. suggest_similar_member_by_first_name ratio names2 r (4 / 5) = Inr (Some c)
              \<and> is_first_max (first_name_ratio ratio r) (suggestion_candidates names2) c
              \<and> 4 / 5 \<le> first_name_ratio ratio r c"
          then obtain c where
            c: "suggest_similar_member_by_first_name ratio names2 r (4 / 5) = Inr (Some c)"
            by blast
          from fuzzy [OF c] have k: "c \<in> unique_names messages"
            "filter_messages_for_member messages c \<noteq> []" by auto
          from core_answer_ok [OF k(2)] obtain core where
            core: "core_answer question c (filter_messages_for_member messages c) = Inr core"
            by blast
          have "?answer = Inr (clarification r c core)"
            using answer_suggested [OF False _ _ c core k(2), where ?names1.0 = names1]
              st st_none req Some by simp
          with k core have ?third by blast
          then show ?thesis by blast
        qed
      qed
    qed
  qed
  from strict fuzzy answer show ?thesis by blast
qed

theorem resolved_member_has_messages_witness:
  "is_iteration_order [''Bob''] [message ''Bob'' ''I like tea'']
   \<and> find_member_name_in_question [''Bob''] ''What did Bob say?''
        [message ''Bob'' ''I like tea''] = Inr (Some ''Bob'')
   \<and> suggest_similar_member_by_first_name sequence_matcher_ratio [''Bob''] ''Bobb'' (4 / 5)
        = Inr (Some ''Bob'')
   \<and> ''Bob'' \<in> unique_names [message ''Bob'' ''I like tea'']
   \<and> filter_messages_for_member [message ''Bob'' ''I like tea''] ''Bob'' \<noteq> []
   \<and> answer_question_baseline sequence_matcher_ratio [''Bob''] [''Bob'']
        ''What did Bob say?'' [message ''Bob'' ''I like tea''] = Inr ''I like tea''"
proof -
  let ?msgs = "[message ''Bob'' ''I like tea'']"
  have h1: "is_iteration_order [''Bob''] ?msgs" by code_simp
  have h2: "find_member_name_in_question [''Bob''] ''What did Bob say?'' ?msgs
              = Inr (Some ''Bob'')" by code_simp
  have h3: "suggest_similar_member_by_first_name sequence_matcher_ratio [''Bob''] ''Bobb'' (4 / 5)
        = Inr (Some ''Bob'')" by code_simp
  have h4: "answer_question_baseline sequence_matcher_ratio [''Bob''] [''Bob'']
        ''What did Bob say?'' ?msgs = Inr ''I like tea''" by code_simp
  from resolved_member_has_messages [OF h1 h1, of "''What did Bob say?''" "''Bob''"
      sequence_matcher_ratio "''Bobb''" "4 / 5"] h2 h3
  have "''Bob'' \<in> unique_names ?msgs \<and> filter_messages_for_member ?msgs ''Bob'' \<noteq> []"
    by blast
  with h1 h2 h3 h4 show ?thesis by blast
qed

text \<open>
  The claim as it is written says that the answer is never the string of that
  fallback. The generic answer is the text of the member's latest message, whatever
  it is: a message of Bob with the text of the fallback is returned as it is.
\<close>

theorem no_messages_string_counterexample:
  "is_iteration_order [''Bob''] [message ''Bob'' ''I couldn't find any messages for Bob.'']
   \<and> filter_messages_for_member [message ''Bob'' ''I couldn't find any messages for Bob.'']
        ''Bob'' \<noteq> []
   \<and> answer_question_baseline sequence_matcher_ratio [''Bob''] [''Bob'']
        ''What did Bob say?'' [message ''Bob'' ''I couldn't find any messages for Bob.'']
        = Inr (''I couldn't find any messages for '' @ ''Bob'' @ ''.'')"
  by code_simp

section \<open>Fuzzy suggestion\<close>

text \<open>
  Claim C4. On a non-empty collection (the strict resolver is only called on one),
  when strict resolution fails and a first name is extracted from the question: if
  some member's lower-cased first name has a similarity of at least 0.80 to the
  lower-cased requested name, the answer is the clarification that names the
  requested first name and the member with the highest similarity (the earliest one
  of them in iteration order), followed by a blank line and the core answer for that
  member; otherwise it is the message that the member cannot be identified.
\<close>

theorem fuzzy_suggestion_threshold:
  assumes "messages \<noteq> []"
    and "is_iteration_order names1 messages"
    and "is_iteration_order names2 messages"
    and "find_member_name_in_question names1 question messages = Inr None"
    and "extract_requested_first_name question = Inr (Some r)"
  shows "if \<exists>n\<in>unique_names messages. first_name n \<noteq> None \<and> 4 / 5 \<le> first_name_ratio ratio r n
         then \<exists>s core. s \<in> unique_names messages
                \<and> is_first_max (first_name_ratio ratio r) (suggestion_candidates names2) s
                \<and> 4 / 5 \<le> first_name_ratio ratio r s
                \<and> core_answer question s (filter_messages_for_member messages s) = Inr core
                \<and> answer_question_baseline ratio names1 names2 question messages
                     = Inr (clarification r s core)
         else answer_question_baseline ratio names1 names2 question messages
                = Inr ''I couldn't identify which member the question is about.''"
proof -
  have set2: "set names2 = unique_names messages"
    using assms(3) by (simp add: is_iteration_order_def)
  have cands: "set (suggestion_candidates names2)
                 = {n \<in> unique_names messages. first_name n \<noteq> None}"
    using set2 by (auto simp: suggestion_candidates_def)
  have pos: "(0::rat) < 4 / 5" by simp
  from suggest_cases [OF pos, of ratio names2 r] show ?thesis
  proof
    assume a: "suggest_similar_member_by_first_name ratio names2 r (4 / 5) = Inr None
      \<and> list_all (\<lambda>n. first_name_ratio ratio r n < 4 / 5) (suggestion_candidates names2)"
    then have "\<not> (\<exists>n\<in>unique_names messages.
                   first_name n \<noteq> None \<and> 4 / 5 \<le> first_name_ratio ratio r n)"
      using cands by (auto simp: list_all_iff)
    moreover have "answer_question_baseline ratio names1 names2 question messages
                = Inr ''I couldn't identify which member the question is about.''"
      using answer_unresolved [OF assms(1,4,5), of ratio names2] a by simp
    ultimately show ?thesis by (simp only: if_False simp_thms)
  next
    assume "\<exists>c. suggest_similar_member_by_first_name ratio names2 r (4 / 5) = Inr (Some c)
        \<and> is_first_max (first_name_ratio ratio r) (suggestion_candidates names2) c
        \<and> 4 / 5 \<le> first_name_ratio ratio r c"
    then obtain c where
      c: "suggest_similar_member_by_first_name ratio names2 r (4 / 5) = Inr (Some c)"
         "is_first_max (first_name_ratio ratio r) (suggestion_candidates names2) c"
         "4 / 5 \<le> first_name_ratio ratio r c"
      by blast
    have "c \<in> set (suggestion_candidates names2)"
      using c(2) by (simp add: is_first_max_def)
    then have c_in: "c \<in> unique_names messages" "first_name c \<noteq> None"
      using cands by auto
    have msgs: "filter_messages_for_member messages c \<noteq> []"
      using c_in(1) by (rule filter_messages_nonempty)
    from core_answer_ok [OF msgs] obtain core where
      core: "core_answer question c (filter_messages_for_member messages c) = Inr core"
      by blast
    have "answer_question_baseline ratio names1 names2 question messages
            = Inr (clarification r c core)"
      by (rule answer_suggested [OF assms(1,4,5) c(1) core msgs])
    with c_in c(2,3) core
    have "\<exists>s core. s \<in> unique_names messages
                \<and> is_first_max (first_name_ratio ratio r) (suggestion_candidates names2) s
                \<and> 4 / 5 \<le> first_name_ratio ratio r s
                \<and> core_answer question s (filter_messages_for_member messages s) = Inr core
                \<and> answer_question_baseline ratio names1 names2 question messages
                     = Inr (clarification r s core)"
      by blast
    moreover have "\<exists>n\<in>unique_names messages.
                   first_name n \<noteq> None \<and> 4 / 5 \<le> first_name_ratio ratio r n"
      using c_in c(3) by blast
    ultimately show ?thesis by (simp only: if_True simp_thms)
  qed
qed


theorem fuzzy_suggestion_threshold_witness:
  "[message ''Amina Van Den Berg'' ''My favorite restaurant is Nobu''] \<noteq> []
   \<and> is_iteration_order [''Amina Van Den Berg'']
        [message ''Amina Van Den Berg'' ''My favorite restaurant is Nobu'']
   \<and> find_member_name_in_question [''Amina Van Den Berg'']
        ''What are Amira's favorite restaurants?''
        [message ''Amina Van Den Berg'' ''My favorite restaurant is Nobu''] = Inr None
   \<and> extract_requested_first_name ''What are Amira's favorite restaurants?''
        = Inr (Some ''Amira'')
   \<and> first_name_ratio sequence_matcher_ratio ''Amira'' ''Amina Van Den Berg'' = 4 / 5
   \<and> answer_question_baseline sequence_matcher_ratio [''Amina Van Den Berg'']
        [''Amina Van Den Berg''] ''What are Amira's favorite restaurants?''
        [message ''Amina Van Den Berg'' ''My favorite restaurant is Nobu'']
        = Inr (clarification ''Amira'' ''Amina Van Den Berg'' ''My favorite restaurant is Nobu'')
   \<and> find_member_name_in_question [''Amina Van Den Berg''] ''What does Zoe like?''
        [message ''Amina Van Den Berg'' ''My favorite restaurant is Nobu''] = Inr None
   \<and> extract_requested_first_name ''What does Zoe like?'' = Inr (Some ''Zoe'')
   \<and> first_name_ratio sequence_matcher_ratio ''Zoe'' ''Amina Van Den Berg'' = 0
   \<and> answer_question_baseline sequence_matcher_ratio [''Amina Van Den Berg'']
        [''Amina Van Den Berg''] ''What does Zoe like?''
        [message ''Amina Van Den Berg'' ''My favorite restaurant is Nobu'']
        = Inr ''I couldn't identify which member the question is about.''"
proof -
  let ?names = "[''Amina Van Den Berg'']"
  let ?msgs = "[message ''Amina Van Den Berg'' ''My favorite restaurant is Nobu'']"
  let ?q = "''What are Amira's favorite restaurants?''"
  let ?q' = "''What does Zoe like?''"
  have h1: "?msgs \<noteq> []" by simp
  have h2: "is_iteration_order ?names ?msgs" by code_simp
  have h3: "find_member_name_in_question ?names ?q ?msgs = Inr None" by code_simp
  have h4: "extract_requested_first_name ?q = Inr (Some ''Amira'')" by code_simp
  have h5: "first_name_ratio sequence_matcher_ratio ''Amira'' ''Amina Van Den Berg'' = 4 / 5"
    by code_simp
  have yes: "\<exists>n\<in>unique_names ?msgs. first_name n \<noteq> None
               \<and> 4 / 5 \<le> first_name_ratio sequence_matcher_ratio ''Amira'' n"
    by code_simp
  have direct: "answer_question_baseline sequence_matcher_ratio ?names ?names ?q ?msgs
        = Inr (clarification ''Amira'' ''Amina Van Den Berg'' ''My favorite restaurant is Nobu'')"
    by code_simp
  have h3': "find_member_name_in_question ?names ?q' ?msgs = Inr None" by code_simp
  have h4': "extract_requested_first_name ?q' = Inr (Some ''Zoe'')" by code_simp
  have h5': "first_name_ratio sequence_matcher_ratio ''Zoe'' ''Amina Van Den Berg'' = 0"
    by code_simp
  have no: "\<not> (\<exists>n\<in>unique_names ?msgs. first_name n \<noteq> None
               \<and> 4 / 5 \<le> first_name_ratio sequence_matcher_ratio ''Zoe'' n)"
    by code_simp
  from fuzzy_suggestion_threshold [OF h1 h2 h2 h3 h4, of sequence_matcher_ratio] yes
  obtain s core where
    "answer_question_baseline sequence_matcher_ratio ?names ?names ?q ?msgs
       = Inr (clarification ''Amira'' s core)"
    by (simp only: if_True) blast
  from fuzzy_suggestion_threshold [OF h1 h2 h2 h3' h4', of sequence_matcher_ratio] no
  have "answer_question_baseline sequence_matcher_ratio ?names ?names ?q' ?msgs
       = Inr ''I couldn't identify which member the question is about.''"
    by (simp only: if_False)
  with h1 h2 h3 h4 h5 direct h3' h4' h5' show ?thesis by blast
qed

section \<open>Question classification\<close>

text \<open>
  Claim C5. The classifier tests the lower-cased question for the key words of
  \<^verbatim>\<open>car_count\<close>, then of \<^verbatim>\<open>favorite_restaurants\<close>, then of \<^verbatim>\<open>trip_when\<close>, and the first rule
  that matches wins, \<^verbatim>\<open>generic\<close> being left. A question with the key words of both
  the car count and the favorite restaurants is a car-count question, and the answer
  for a resolved member is the one of the car-count extractor.
\<close>

theorem question_type_priority:
  "(detect_question_type question = ''car_count''
      \<longleftrightarrow> str_in ''how many'' (lower question) \<and> str_in ''car'' (lower question))
   \<and> (detect_question_type question = ''favorite_restaurants''
      \<longleftrightarrow> \<not> (str_in ''how many'' (lower question) \<and> str_in ''car'' (lower question))
          \<and> str_in ''favorite'' (lower question) \<and> str_in ''restaurant'' (lower question))
   \<and> (detect_question_type question = ''trip_when''
      \<longleftrightarrow> \<not> (str_in ''how many'' (lower question) \<and> str_in ''car'' (lower question))
          \<and> \<not> (str_in ''favorite'' (lower question) \<and> str_in ''restaurant'' (lower question))
          \<and> str_in ''when'' (lower question) \<and> str_in ''trip'' (lower question))
   \<and> (detect_question_type question = ''generic''
      \<longleftrightarrow> \<not> (str_in ''how many'' (lower question) \<and> str_in ''car'' (lower question))
          \<and> \<not> (str_in ''favorite'' (lower question) \<and> str_in ''restaurant'' (lower question))
          \<and> \<not> (str_in ''when'' (lower question) \<and> str_in ''trip'' (lower question)))
   \<and> (str_in ''how many'' (lower question) \<and> str_in ''car'' (lower question)
        \<and> str_in ''favorite'' (lower question) \<and> str_in ''restaurant'' (lower question)
      \<longrightarrow> detect_question_type question = ''car_count''
          \<and> core_answer question name member_msgs = answer_car_count name member_msgs)
   \<and> (is_iteration_order names1 messages
        \<and> find_member_name_in_question names1 question messages = Inr (Some n)
        \<and> str_in ''how many'' (lower question) \<and> str_in ''car'' (lower question)
        \<and> str_in ''favorite'' (lower question) \<and> str_in ''restaurant'' (lower question)
      \<longrightarrow> answer_question_baseline ratio names1 names2 question messages
            = answer_car_count n (filter_messages_for_member messages n))"
proof -
  have types: "(detect_question_type question = ''car_count''
      \<longleftrightarrow> str_in ''how many'' (lower question) \<and> str_in ''car'' (lower question))
   \<and> (detect_question_type question = ''favorite_restaurants''
      \<longleftrightarrow> \<not> (str_in ''how many'' (lower question) \<and> str_in ''car'' (lower question))
          \<and> str_in ''favorite'' (lower question) \<and> str_in ''restaurant'' (lower question))
   \<and> (detect_question_type question = ''trip_when''
      \<longleftrightarrow> \<not> (str_in ''how many'' (lower question) \<and> str_in ''car'' (lower question))
          \<and> \<not> (str_in ''favorite'' (lower question) \<and> str_in ''restaurant'' (lower question))
          \<and> str_in ''when'' (lower question) \<and> str_in ''trip'' (lower question))
   \<and> (detect_question_type question = ''generic''
      \<longleftrightarrow> \<not> (str_in ''how many'' (lower question) \<and> str_in ''car'' (lower question))
          \<and> \<not> (str_in ''favorite'' (lower question) \<and> str_in ''restaurant'' (lower question))
          \<and> \<not> (str_in ''when'' (lower question) \<and> str_in ''trip'' (lower question)))"
    by (simp add: detect_question_type_def Let_def)
  have core: "core_answer question nm ms = answer_car_count nm ms"
    if "str_in ''how many'' (lower question)" "str_in ''car'' (lower question)" for nm ms
    using that by (simp add: core_answer_def detect_question_type_def Let_def)
  have whole: "answer_question_baseline ratio names1 names2 question messages
            = answer_car_count n (filter_messages_for_member messages n)"
    if a: "is_iteration_order names1 messages"
      "find_member_name_in_question names1 question messages = Inr (Some n)"
      "str_in ''how many'' (lower question)" "str_in ''car'' (lower question)"
  proof -
    have "n \<in> unique_names messages"
      using find_member_in_names [OF a(2)] a(1) by (simp add: is_iteration_order_def)
    then have "filter_messages_for_member messages n \<noteq> []"
      by (rule filter_messages_nonempty)
    from answer_strict [OF a(2) this] core [OF a(3,4)] show ?thesis by simp
  qed
  from types core whole show ?thesis by blast
qed

theorem question_type_priority_witness:
  "str_in ''how many'' (lower ''How many cars fit at Layla's favorite restaurant?'')
   \<and> str_in ''car'' (lower ''How many cars fit at Layla's favorite restaurant?'')
   \<and> str_in ''favorite'' (lower ''How many cars fit at Layla's favorite restaurant?'')
   \<and> str_in ''restaurant'' (lower ''How many cars fit at Layla's favorite restaurant?'')
   \<and> is_iteration_order [''Layla Smith'']
        [message ''Layla Smith'' ''My favorite restaurant is Nobu'',
         message ''Layla Smith'' ''I have 2 cars'']
   \<and> find_member_name_in_question [''Layla Smith'']
        ''How many cars fit at Layla's favorite restaurant?''
        [message ''Layla Smith'' ''My favorite restaurant is Nobu'',
         message ''Layla Smith'' ''I have 2 cars''] = Inr (Some ''Layla Smith'')
   \<and> detect_question_type ''How many cars fit at Layla's favorite restaurant?'' = ''car_count''
   \<and> answer_question_baseline sequence_matcher_ratio [''Layla Smith''] [''Layla Smith'']
        ''How many cars fit at Layla's favorite restaurant?''
        [message ''Layla Smith'' ''My favorite restaurant is Nobu'',
         message ''Layla Smith'' ''I have 2 cars'']
       = answer_car_count ''Layla Smith''
           (filter_messages_for_member
              [message ''Layla Smith'' ''My favorite restaurant is Nobu'',
               message ''Layla Smith'' ''I have 2 cars''] ''Layla Smith'')
   \<and> answer_car_count ''Layla Smith''
           (filter_messages_for_member
              [message ''Layla Smith'' ''My favorite restaurant is Nobu'',
               message ''Layla Smith'' ''I have 2 cars''] ''Layla Smith'')
       = Inr ''Layla Smith has 2 cars.''"
proof -
  let ?q = "''How many cars fit at Layla's favorite restaurant?''"
  let ?msgs = "[message ''Layla Smith'' ''My favorite restaurant is Nobu'',
         message ''Layla Smith'' ''I have 2 cars'']"
  have h1: "str_in ''how many'' (lower ?q)" by code_simp
  have h2: "str_in ''car'' (lower ?q)" by code_simp
  have h3: "str_in ''favorite'' (lower ?q)" by code_simp
  have h4: "str_in ''restaurant'' (lower ?q)" by code_simp
  have h5: "is_iteration_order [''Layla Smith''] ?msgs" by code_simp
  have h6: "find_member_name_in_question [''Layla Smith''] ?q ?msgs = Inr (Some ''Layla Smith'')"
    by code_simp
  have h7: "answer_car_count ''Layla Smith''
           (filter_messages_for_member ?msgs ''Layla Smith'') = Inr ''Layla Smith has 2 cars.''"
    by code_simp
  from question_type_priority [of ?q "''Layla Smith''" "filter_messages_for_member ?msgs ''Layla Smith''"
      "[''Layla Smith'']" ?msgs "''Layla Smith''" sequence_matcher_ratio "[''Layla Smith'']"]
    h1 h2 h3 h4 h5 h6
  have "detect_question_type ?q = ''car_count''
    \<and> answer_question_baseline sequence_matcher_ratio [''Layla Smith''] [''Layla Smith''] ?q ?msgs
       = answer_car_count ''Layla Smith'' (filter_messages_for_member ?msgs ''Layla Smith'')"
    by blast
  with h1 h2 h3 h4 h5 h6 h7 show ?thesis by blast
qed

section \<open>Trip timing\<close>

lemma day_tail_nonempty: "day_tail s = Some t \<Longrightarrow> t \<noteq> []"
  by (auto simp: day_tail_def Let_def split: if_splits)

lemma month_alternatives_nonempty: "month_alternatives ws s = Some g \<Longrightarrow> g \<noteq> []"
  by (induction ws) (auto split: if_splits option.splits dest: day_tail_nonempty)

lemma month_at_nonempty: "month_at prev s = Some g \<Longrightarrow> g \<noteq> []"
  by (auto simp: month_at_def split: if_splits dest: month_alternatives_nonempty)

lemma digits_slash_nonempty: "digits_slash s = Some (a, r) \<Longrightarrow> a \<noteq> []"
  by (auto simp: digits_slash_def Let_def split: if_splits)

lemma slash_date_at_nonempty: "slash_date_at prev s = Some g \<Longrightarrow> g \<noteq> []"
  by (auto simp: slash_date_at_def Let_def split: if_splits option.splits prod.splits
           dest: digits_slash_nonempty)

lemma extract_date_phrase_nonempty:
  assumes "extract_date_phrase t = Some g"
  shows "g \<noteq> []"
proof (cases "re_search month_at None t")
  case None
  with assms have "re_search slash_date_at None t = Some g"
    by (simp add: extract_date_phrase_def)
  from re_search_sound [OF this] show ?thesis
    by (auto dest: slash_date_at_nonempty)
next
  case (Some h)
  with assms have "re_search month_at None t = Some g"
    by (simp add: extract_date_phrase_def)
  from re_search_sound [OF this] show ?thesis
    by (auto dest: month_at_nonempty)
qed

lemma extract_destination_shape:
  assumes "extract_destination_from_question question = Some d"
  shows "\<exists>pre lit g post.
           question = pre @ lit @ g @ post \<and> lower lit = ''trip to '' \<and> g \<noteq> []
             \<and> list_all (\<lambda>c. is_alpha c \<or> c = CHR '' '') g \<and> d = strip g"
proof -
  from assms obtain g where
    g: "re_search trip_to_at None question = Some g" "d = strip g"
    by (auto simp: extract_destination_from_question_def split: option.splits)
  from re_search_sound [OF g(1)] obtain pre s where
    ps: "question = pre @ s" "trip_to_at (if pre = [] then None else Some (last pre)) s = Some g"
    by blast
  let ?P = "\<lambda>c. is_alpha c \<or> c = CHR '' ''"
  from ps(2) have t: "lower (take 8 s) = ''trip to ''" "g \<noteq> []" "g = takeWhile ?P (drop 8 s)"
    by (auto simp: trip_to_at_def Let_def split: if_splits)
  have "s = take 8 s @ drop 8 s" by simp
  also have "drop 8 s = g @ dropWhile ?P (drop 8 s)" by (simp add: t(3))
  finally have "question = pre @ take 8 s @ g @ dropWhile ?P (drop 8 s)"
    using ps(1) by simp
  moreover have "list_all ?P g"
    unfolding t(3) list_all_iff by (auto dest: set_takeWhileD)
  ultimately show ?thesis using t(1,2) g(2) by blast
qed

lemma filter_last_match:
  assumes "P m" "list_all (\<lambda>x. \<not> P x) newer"
  shows "filter P (older @ m # newer) = filter P older @ [m]"
proof -
  from assms(2) have "filter P newer = []" by (simp add: list_all_iff)
  with assms(1) show ?thesis by simp
qed

text \<open>
  Claim C8. When the question yields a (non-empty) destination through the pattern
  \<^verbatim>\<open>trip to <words>\<close>, \<^verbatim>\<open>answer_trip_when\<close> looks only at the messages whose lower-cased
  text contains the lower-cased destination. Without such a message the answer is the
  not-found message naming the member and the destination. Otherwise the answer is
  determined by the last such message alone: the sentence with the destination and
  the date phrase of that message, or the text of that message when it has no date
  phrase. The destination is the trimmed run of letters and spaces that follows
  \<^verbatim>\<open>trip to\<close> in the question.
\<close>

theorem trip_destination_scoping:
  assumes "extract_destination_from_question question = Some d" and "d \<noteq> []"
  shows "(list_all (\<lambda>m. \<not> str_in (lower d) (lower (text m))) msgs \<longrightarrow>
            answer_trip_when question name msgs =
              Inr (''I couldn't find any messages from '' @ name @ '' about a trip to '' @ d @ ''.''))
         \<and> (msgs = older @ m # newer \<and> str_in (lower d) (lower (text m))
              \<and> list_all (\<lambda>m'. \<not> str_in (lower d) (lower (text m'))) newer \<longrightarrow>
            answer_trip_when question name msgs =
              Inr (case extract_date_phrase (text m) of
                     Some date_phrase \<Rightarrow>
                       name @ '' is planning their trip to '' @ d @ '' around '' @ date_phrase @ ''.''
                   | None \<Rightarrow> text m))
         \<and> (\<exists>pre lit g post.
               question = pre @ lit @ g @ post \<and> lower lit = ''trip to '' \<and> g \<noteq> []
                 \<and> list_all (\<lambda>c. is_alpha c \<or> c = CHR '' '') g \<and> d = strip g)"
proof (intro conjI impI)
  have tr: "truthy (Some d)" using assms(2) by (simp add: truthy_def)
  {
    assume "list_all (\<lambda>m. \<not> str_in (lower d) (lower (text m))) msgs"
    then have "filter (\<lambda>m. str_in (lower d) (lower (text m))) msgs = []"
      by (simp add: list_all_iff)
    then show "answer_trip_when question name msgs =
              Inr (''I couldn't find any messages from '' @ name @ '' about a trip to '' @ d @ ''.'')"
      using assms(1) tr by (simp add: answer_trip_when_def Let_def)
  }
  {
    assume a: "msgs = older @ m # newer \<and> str_in (lower d) (lower (text m))
              \<and> list_all (\<lambda>m'. \<not> str_in (lower d) (lower (text m'))) newer"
    let ?P = "\<lambda>m. str_in (lower d) (lower (text m))"
    from a have f: "filter ?P msgs = filter ?P older @ [m]"
      using filter_last_match [of ?P m newer older] by simp
    have l: "py_getitem (filter ?P older @ [m]) (- 1) = Inr m"
      using py_getitem_last [of "filter ?P older @ [m]"] by simp
    show "answer_trip_when question name msgs =
              Inr (case extract_date_phrase (text m) of
                     Some date_phrase \<Rightarrow>
                       name @ '' is planning their trip to '' @ d @ '' around '' @ date_phrase @ ''.''
                   | None \<Rightarrow> text m)"
      using assms(1) tr f l
      by (auto simp: answer_trip_when_def Let_def split: option.splits
               dest: extract_date_phrase_nonempty)
  }
  show "\<exists>pre lit g post.
               question = pre @ lit @ g @ post \<and> lower lit = ''trip to '' \<and> g \<noteq> []
                 \<and> list_all (\<lambda>c. is_alpha c \<or> c = CHR '' '') g \<and> d = strip g"
    using assms(1) by (rule extract_destination_shape)
qed

theorem trip_destination_scoping_witness:
  "answer_trip_when (''When is Sophia'' @ [CHR 0x27] @ ''s trip to Rome?'') ''Sophia Lee''
     [message ''Sophia Lee'' ''Booked my trip to Paris for June 5th, 2025'',
      message ''Sophia Lee'' ''Rome is next, flying on 10/12/2025'',
      message ''Sophia Lee'' ''See you on Friday'']
     = Inr ''Sophia Lee is planning their trip to Rome around 10/12/2025.''
   \<and> answer_trip_when (''When is Sophia'' @ [CHR 0x27] @ ''s trip to Tokyo?'') ''Sophia Lee''
        [message ''Sophia Lee'' ''Booked my trip to Paris for June 5th, 2025'',
         message ''Sophia Lee'' ''Rome is next, flying on 10/12/2025'']
     = Inr ''I couldn't find any messages from Sophia Lee about a trip to Tokyo.''"
proof -
  let ?q = "''When is Sophia'' @ [CHR 0x27] @ ''s trip to Rome?''"
  let ?q' = "''When is Sophia'' @ [CHR 0x27] @ ''s trip to Tokyo?''"
  let ?m1 = "message ''Sophia Lee'' ''Booked my trip to Paris for June 5th, 2025''"
  let ?m2 = "message ''Sophia Lee'' ''Rome is next, flying on 10/12/2025''"
  let ?m3 = "message ''Sophia Lee'' ''See you on Friday''"
  have d: "extract_destination_from_question ?q = Some ''Rome''" by code_simp
  have d': "extract_destination_from_question ?q' = Some ''Tokyo''" by code_simp
  have ne: "''Rome'' \<noteq> []" "''Tokyo'' \<noteq> []" by simp_all
  have c: "str_in (lower ''Rome'') (lower (text ?m2))" by code_simp
  have n: "list_all (\<lambda>m'. \<not> str_in (lower ''Rome'') (lower (text m'))) [?m3]" by code_simp
  have n': "list_all (\<lambda>m. \<not> str_in (lower ''Tokyo'') (lower (text m))) [?m1, ?m2]" by code_simp
  have p: "extract_date_phrase (text ?m2) = Some ''10/12/2025''" by code_simp
  from trip_destination_scoping [OF d ne(1), of "[?m1, ?m2, ?m3]" "''Sophia Lee''" "[?m1]" ?m2 "[?m3]"]
       c n
  have "answer_trip_when ?q ''Sophia Lee'' [?m1, ?m2, ?m3] =
          Inr (case extract_date_phrase (text ?m2) of
                 Some date_phrase \<Rightarrow>
                   ''Sophia Lee'' @ '' is planning their trip to '' @ ''Rome'' @ '' around ''
                     @ date_phrase @ ''.''
               | None \<Rightarrow> text ?m2)"
    by simp
  then have a: "answer_trip_when ?q ''Sophia Lee'' [?m1, ?m2, ?m3]
                  = Inr ''Sophia Lee is planning their trip to Rome around 10/12/2025.''"
    unfolding p by simp
  from trip_destination_scoping [OF d' ne(2), of "[?m1, ?m2]" "''Sophia Lee''" "[]" ?m1 "[]"] n'
  have b: "answer_trip_when ?q' ''Sophia Lee'' [?m1, ?m2]
             = Inr ''I couldn't find any messages from Sophia Lee about a trip to Tokyo.''"
    by simp
  from a b show ?thesis by blast
qed

text \<open>
  A question whose run after \<^verbatim>\<open>trip to\<close> is blank yields the empty destination, which
  the extractor treats as no destination: it falls back to the messages containing
  \<^verbatim>\<open>trip\<close>.
\<close>

lemma blank_destination_example:
  "extract_destination_from_question ''My trip to  ?'' = Some []
   \<and> answer_trip_when ''My trip to  ?'' ''Bob'' [message ''Bob'' ''hello'']
       = Inr ''I couldn't find any trip details for Bob.''"
  by code_simp

section \<open>Car count\<close>

lemma str_in_iff: "str_in sub s \<longleftrightarrow> (\<exists>p q. s = p @ sub @ q)"
proof (induction s)
  case Nil
  then show ?case by auto
next
  case (Cons c cs)
  show ?case
  proof
    assume "str_in sub (c # cs)"
    then consider "prefix sub (c # cs)" | "str_in sub cs" by auto
    then show "\<exists>p q. c # cs = p @ sub @ q"
    proof cases
      case 1
      then obtain q where "c # cs = sub @ q" by (auto simp: prefix_def)
      then have "c # cs = [] @ sub @ q" by simp
      then show ?thesis by blast
    next
      case 2
      with Cons obtain p q where "cs = p @ sub @ q" by blast
      then have "c # cs = (c # p) @ sub @ q" by simp
      then show ?thesis by blast
    qed
  next
    assume "\<exists>p q. c # cs = p @ sub @ q"
    then obtain p q where pq: "c # cs = p @ sub @ q" by blast
    show "str_in sub (c # cs)"
    proof (cases p)
      case Nil
      with pq have "prefix sub (c # cs)" by (simp add: prefix_def)
      then show ?thesis by simp
    next
      case (Cons a p')
      with pq have "cs = p' @ sub @ q" by simp
      with Cons.IH have "str_in sub cs" by blast
      then show ?thesis by simp
    qed
  qed
qed

text \<open>The search returns the match at the leftmost position that has one.\<close>

lemma re_search_leftmost:
  "re_search m prev t = Some r \<Longrightarrow>
     \<exists>pre s. t = pre @ s \<and> m (if pre = [] then prev else Some (last pre)) s = Some r
       \<and> (\<forall>pre' s'. t = pre' @ s' \<and> length pre' < length pre \<longrightarrow>
             m (if pre' = [] then prev else Some (last pre')) s' = None)"
proof (induction t arbitrary: prev)
  case Nil
  then show ?case by simp
next
  case (Cons c cs)
  show ?case
  proof (cases "m prev (c # cs)")
    case (Some r')
    with Cons.prems have "m prev (c # cs) = Some r" by simp
    then have "c # cs = [] @ (c # cs)
        \<and> m (if [] = [] then prev else Some (last [])) (c # cs) = Some r
        \<and> (\<forall>pre' s'. c # cs = pre' @ s' \<and> length pre' < length ([] :: string) \<longrightarrow>
              m (if pre' = [] then prev else Some (last pre')) s' = None)"
      by simp
    then show ?thesis by blast
  next
    case None
    with Cons.prems have "re_search m (Some c) cs = Some r" by simp
    from Cons.IH [OF this] obtain pre s where
      ps: "cs = pre @ s" "m (if pre = [] then Some c else Some (last pre)) s = Some r"
      and least: "\<And>pre' s'. cs = pre' @ s' \<Longrightarrow> length pre' < length pre \<Longrightarrow>
             m (if pre' = [] then Some c else Some (last pre')) s' = None"
      by blast
    have a: "c # cs = (c # pre) @ s" using ps(1) by simp
    have b: "m (if c # pre = [] then prev else Some (last (c # pre))) s = Some r"
      using ps(2) by (cases "pre = []") simp_all
    have "m (if pre' = [] then prev else Some (last pre')) s' = None"
      if h: "c # cs = pre' @ s'" "length pre' < length (c # pre)" for pre' s'
    proof (cases pre')
      case Nil
      with h(1) None show ?thesis by simp
    next
      case (Cons a p')
      with h have ac: "a = c" and "cs = p' @ s'" "length p' < length pre" by simp_all
      from least [OF this(2,3)] show ?thesis
        unfolding Cons ac by (cases "p' = []") simp_all
    qed
    with a b show ?thesis by blast
  qed
qed

lemma word_boundary_before_word:
  "is_word c \<Longrightarrow>
     word_boundary (if pre = [] then None else Some (last pre)) (c # s)
       \<longleftrightarrow> (pre = [] \<or> \<not> is_word (last pre))"
  by (simp add: word_boundary_def)

lemma car_count_at_Some:
  assumes "car_count_at prev s = Some g"
  shows "\<exists>ws post. s = g @ ws @ ''car'' @ post \<and> g \<noteq> [] \<and> list_all is_digit g
           \<and> white_space ws \<and> word_boundary prev s"
proof -
  define r1 where "r1 = dropWhile is_digit s"
  define ws where "ws = takeWhile is_space r1"
  define r2 where "r2 = dropWhile is_space r1"
  from assms have g: "g = takeWhile is_digit s" and gne: "g \<noteq> []" and wne: "ws \<noteq> []"
    and pre: "prefix ''car'' r2" and wb: "word_boundary prev s"
    by (auto simp: car_count_at_def Let_def r1_def ws_def r2_def split: if_splits)
  from pre obtain post where post: "r2 = ''car'' @ post" by (auto simp: prefix_def)
  have "s = g @ r1" by (simp add: g r1_def)
  moreover have "r1 = ws @ r2" by (simp add: ws_def r2_def)
  ultimately have "s = g @ ws @ ''car'' @ post" using post by simp
  moreover have "list_all is_digit g"
    unfolding g list_all_iff by (auto dest: set_takeWhileD)
  moreover have "white_space ws"
    using wne unfolding white_space_def ws_def list_all_iff by (auto dest: set_takeWhileD)
  ultimately show ?thesis using gne wb by blast
qed

lemma car_count_at_complete:
  assumes "ds \<noteq> []" "list_all is_digit ds" "white_space ws" "word_boundary prev (ds @ ws @ ''car'' @ post)"
  shows "car_count_at prev (ds @ ws @ ''car'' @ post) = Some ds"
proof -
  from assms(3) obtain w ws' where ws: "ws = w # ws'" "is_space w" "list_all is_space ws'"
    by (cases ws) (auto simp: white_space_def)
  have nd: "\<not> is_digit w" using ws(2) by (rule space_not_digit)
  have t1: "takeWhile is_digit (ds @ ws @ ''car'' @ post) = ds"
    using assms(2) nd by (simp add: takeWhile_append2 list_all_iff ws(1))
  have d1: "dropWhile is_digit (ds @ ws @ ''car'' @ post) = ws @ ''car'' @ post"
    using assms(2) nd by (simp add: dropWhile_append2 list_all_iff ws(1))
  have t2: "takeWhile is_space (ws @ ''car'' @ post) = ws"
    using assms(3) c_not_space by (simp add: takeWhile_append2 list_all_iff white_space_def)
  have d2: "dropWhile is_space (ws @ ''car'' @ post) = ''car'' @ post"
    using assms(3) c_not_space by (simp add: dropWhile_append2 list_all_iff white_space_def)
  show ?thesis
    unfolding car_count_at_def Let_def t1 d1 t2 d2
    using assms(1,3,4) by (simp add: white_space_def)
qed

text \<open>
  An occurrence of the pattern after \<open>pre\<close> is a match of the expression at that
  position, with the same digits.
\<close>

lemma car_match_iff:
  "car_match white_space t pre ds \<longleftrightarrow>
     (\<exists>s. t = pre @ s \<and> car_count_at (if pre = [] then None else Some (last pre)) s = Some ds)"
proof
  assume "car_match white_space t pre ds"
  then obtain ws post where
    d: "t = pre @ ds @ ws @ ''car'' @ post" "pre = [] \<or> \<not> is_word (last pre)"
       "ds \<noteq> []" "list_all is_digit ds" "white_space ws"
    unfolding car_match_def by blast
  from d(3) obtain c ds' where ds: "ds = c # ds'" by (cases ds) auto
  with d(4) have "is_word c" by (simp add: digit_is_word)
  with d(2) ds have
    "word_boundary (if pre = [] then None else Some (last pre)) (ds @ ws @ ''car'' @ post)"
    by (simp add: word_boundary_before_word)
  from car_count_at_complete [OF d(3,4,5) this] d(1)
  show "\<exists>s. t = pre @ s \<and> car_count_at (if pre = [] then None else Some (last pre)) s = Some ds"
    by blast
next
  assume "\<exists>s. t = pre @ s \<and> car_count_at (if pre = [] then None else Some (last pre)) s = Some ds"
  then obtain s where
    ps: "t = pre @ s" "car_count_at (if pre = [] then None else Some (last pre)) s = Some ds"
    by blast
  from car_count_at_Some [OF ps(2)] obtain ws post where
    d: "s = ds @ ws @ ''car'' @ post" "ds \<noteq> []" "list_all is_digit ds" "white_space ws"
       "word_boundary (if pre = [] then None else Some (last pre)) s"
    by blast
  from d(2) obtain c g' where g: "ds = c # g'" by (cases ds) auto
  with d(3) have "is_word c" by (simp add: digit_is_word)
  with d(1,5) g have "pre = [] \<or> \<not> is_word (last pre)"
    by (simp add: word_boundary_before_word)
  with ps(1) d show "car_match white_space t pre ds"
    unfolding car_match_def by blast
qed

lemma re_search_car_leftmost:
  "re_search car_count_at None t = Some g \<longleftrightarrow> leftmost_car_match white_space t g"
proof
  assume "re_search car_count_at None t = Some g"
  from re_search_leftmost [OF this] obtain pre s where
    ps: "t = pre @ s" "car_count_at (if pre = [] then None else Some (last pre)) s = Some g"
    and least: "\<And>pre' s'. t = pre' @ s' \<Longrightarrow> length pre' < length pre \<Longrightarrow>
           car_count_at (if pre' = [] then None else Some (last pre')) s' = None"
    by blast
  from ps have m: "car_match white_space t pre g" unfolding car_match_iff by blast
  have "length pre \<le> length pre'" if "car_match white_space t pre' ds'" for pre' ds'
  proof (rule ccontr)
    assume "\<not> length pre \<le> length pre'"
    then have lt: "length pre' < length pre" by simp
    from that obtain s' where
      s': "t = pre' @ s'" "car_count_at (if pre' = [] then None else Some (last pre')) s' = Some ds'"
      unfolding car_match_iff by blast
    from least [OF s'(1) lt] s'(2) show False by simp
  qed
  with m show "leftmost_car_match white_space t g"
    unfolding leftmost_car_match_def by blast
next
  assume "leftmost_car_match white_space t g"
  then obtain pre where
    m: "car_match white_space t pre g"
    and least: "\<And>pre' ds'. car_match white_space t pre' ds' \<Longrightarrow> length pre \<le> length pre'"
    unfolding leftmost_car_match_def by blast
  from m obtain s where
    ps: "t = pre @ s" "car_count_at (if pre = [] then None else Some (last pre)) s = Some g"
    unfolding car_match_iff by blast
  from ps(2) have "car_count_at (if pre = [] then None else Some (last pre)) s \<noteq> None" by simp
  from re_search_complete [of car_count_at pre None, OF this] ps(1)
  obtain h where h: "re_search car_count_at None t = Some h" by auto
  from re_search_leftmost [OF h] obtain pre0 s0 where
    ps0: "t = pre0 @ s0" "car_count_at (if pre0 = [] then None else Some (last pre0)) s0 = Some h"
    and least0: "\<And>pre' s'. t = pre' @ s' \<Longrightarrow> length pre' < length pre0 \<Longrightarrow>
           car_count_at (if pre' = [] then None else Some (last pre')) s' = None"
    by blast
  from ps0 have "car_match white_space t pre0 h" unfolding car_match_iff by blast
  from least [OF this] have le: "length pre \<le> length pre0" .
  have "\<not> length pre < length pre0"
  proof
    assume "length pre < length pre0"
    from least0 [OF ps(1) this] ps(2) show False by simp
  qed
  with le have "length pre = length pre0" by simp
  with ps(1) ps0(1) have e: "pre = pre0" "s = s0" by simp_all
  from ps(2) ps0(2) have "Some h = Some g" unfolding e by simp
  then have "h = g" by simp
  with h show "re_search car_count_at None t = Some g" by simp
qed

lemma re_search_car_None:
  "re_search car_count_at None t = None \<longleftrightarrow> \<not> car_pattern white_space t"
proof
  assume n: "re_search car_count_at None t = None"
  show "\<not> car_pattern white_space t"
  proof
    assume "car_pattern white_space t"
    then obtain pre ds s where
      "t = pre @ s" "car_count_at (if pre = [] then None else Some (last pre)) s = Some ds"
      unfolding car_pattern_def car_match_iff by blast
    then have "re_search car_count_at None t \<noteq> None"
      using re_search_complete [of car_count_at pre None s] by simp
    with n show False by simp
  qed
next
  assume n: "\<not> car_pattern white_space t"
  show "re_search car_count_at None t = None"
  proof (cases "re_search car_count_at None t")
    case None
    then show ?thesis .
  next
    case (Some g)
    then have "leftmost_car_match white_space t g" by (simp only: re_search_car_leftmost)
    then have "car_pattern white_space t"
      unfolding leftmost_car_match_def car_pattern_def by blast
    with n show ?thesis by simp
  qed
qed

lemma py_int_Inr:
  "py_int s = Inr n \<Longrightarrow> s \<noteq> [] \<and> list_all is_digit s \<and> length s \<le> int_max_str_digits"
  by (auto simp: py_int_def split: if_splits)

lemma leftmost_car_match_digits:
  "leftmost_car_match gap t ds \<Longrightarrow> ds \<noteq> [] \<and> list_all is_digit ds"
  unfolding leftmost_car_match_def car_match_def by blast

text \<open>
  Claim C7, as amended. Car-count extraction finds the count \<open>n\<close> in a message exactly
  when the lower-cased text contains a digit sequence that starts at a word boundary
  and is followed by one or more white-space characters and then by \<^verbatim>\<open>car\<close>, the
  digit sequence of the leftmost such occurrence has at most 4300 digits (the limit
  of \<^verbatim>\<open>int\<close>), and \<open>n\<close> is its value. The result is \<^verbatim>\<open>None\<close> exactly when there is no
  occurrence or the leftmost one has more than 4300 digits; a leftmost occurrence
  exists whenever the pattern occurs.
\<close>

theorem car_count_extraction_pattern:
  "(extract_car_count_from_text t = Inr (Some n) \<longleftrightarrow>
      (\<exists>ds. leftmost_car_match white_space (lower t) ds
         \<and> length ds \<le> int_max_str_digits \<and> py_int ds = Inr n))
   \<and> (extract_car_count_from_text t = Inr None \<longleftrightarrow>
        \<not> (\<exists>ds. leftmost_car_match white_space (lower t) ds
              \<and> length ds \<le> int_max_str_digits))
   \<and> (car_pattern white_space (lower t) \<longleftrightarrow>
        (\<exists>ds. leftmost_car_match white_space (lower t) ds))"
proof -
  let ?L = "\<lambda>ds. leftmost_car_match white_space (lower t) ds"
  have c3: "car_pattern white_space (lower t) \<longleftrightarrow> (\<exists>ds. ?L ds)"
  proof
    assume "car_pattern white_space (lower t)"
    with re_search_car_None [of "lower t"]
    obtain g where "re_search car_count_at None (lower t) = Some g" by blast
    with re_search_car_leftmost [of "lower t" g] show "\<exists>ds. ?L ds" by blast
  next
    assume "\<exists>ds. ?L ds"
    then show "car_pattern white_space (lower t)"
      unfolding leftmost_car_match_def car_pattern_def by blast
  qed
  have found: "extract_car_count_from_text t = Inr (Some k)"
    if "?L ds" "py_int ds = Inr k" for ds k
  proof -
    from that(1) have "re_search car_count_at None (lower t) = Some ds"
      by (simp only: re_search_car_leftmost)
    with that(2) show ?thesis by (simp add: extract_car_count_from_text_def)
  qed
  have c1: "extract_car_count_from_text t = Inr (Some n) \<longleftrightarrow>
      (\<exists>ds. ?L ds \<and> length ds \<le> int_max_str_digits \<and> py_int ds = Inr n)"
  proof
    assume a: "extract_car_count_from_text t = Inr (Some n)"
    then obtain g where g: "re_search car_count_at None (lower t) = Some g"
      by (cases "re_search car_count_at None (lower t)")
         (simp_all add: extract_car_count_from_text_def)
    with a have "py_int g = Inr n"
      by (cases "py_int g") (simp_all add: extract_car_count_from_text_def split: if_splits)
    moreover from this have "length g \<le> int_max_str_digits" by (simp add: py_int_Inr)
    moreover from g have "?L g" by (simp only: re_search_car_leftmost)
    ultimately show "\<exists>ds. ?L ds \<and> length ds \<le> int_max_str_digits \<and> py_int ds = Inr n"
      by blast
  next
    assume "\<exists>ds. ?L ds \<and> length ds \<le> int_max_str_digits \<and> py_int ds = Inr n"
    then obtain ds where "?L ds" "py_int ds = Inr n" by blast
    then show "extract_car_count_from_text t = Inr (Some n)" by (rule found)
  qed
  have c2: "extract_car_count_from_text t = Inr None \<longleftrightarrow>
        \<not> (\<exists>ds. ?L ds \<and> length ds \<le> int_max_str_digits)"
  proof
    assume a: "extract_car_count_from_text t = Inr None"
    show "\<not> (\<exists>ds. ?L ds \<and> length ds \<le> int_max_str_digits)"
    proof
      assume "\<exists>ds. ?L ds \<and> length ds \<le> int_max_str_digits"
      then obtain ds where d: "?L ds" "length ds \<le> int_max_str_digits" by blast
      from leftmost_car_match_digits [OF d(1)] have "ds \<noteq> []" "list_all is_digit ds"
        by simp_all
      from py_int_digits [OF this d(2)] obtain k where "py_int ds = Inr k" by blast
      from found [OF d(1) this] a show False by simp
    qed
  next
    assume n: "\<not> (\<exists>ds. ?L ds \<and> length ds \<le> int_max_str_digits)"
    from extract_car_count_ok [of t] obtain c where
      c: "extract_car_count_from_text t = Inr c" by blast
    show "extract_car_count_from_text t = Inr None"
    proof (cases c)
      case None
      with c show ?thesis by simp
    next
      case (Some k)
      with c have "extract_car_count_from_text t = Inr (Some k)" by simp
      then have "\<exists>ds. ?L ds \<and> length ds \<le> int_max_str_digits"
      proof -
        assume a: "extract_car_count_from_text t = Inr (Some k)"
        then obtain g where g: "re_search car_count_at None (lower t) = Some g"
          by (cases "re_search car_count_at None (lower t)")
             (simp_all add: extract_car_count_from_text_def)
        with a have "py_int g = Inr k"
          by (cases "py_int g") (simp_all add: extract_car_count_from_text_def split: if_splits)
        then have "length g \<le> int_max_str_digits" by (simp add: py_int_Inr)
        moreover from g have "?L g" by (simp only: re_search_car_leftmost)
        ultimately show ?thesis by blast
      qed
      with n show ?thesis by simp
    qed
  qed
  from c1 c2 c3 show ?thesis by (intro conjI)
qed

theorem car_count_extraction_pattern_witness:
  "extract_car_count_from_text ''I have 2 cars and 3 cars'' = Inr (Some 2)
   \<and> (\<exists>ds. leftmost_car_match white_space (lower ''I have 2 cars and 3 cars'') ds
         \<and> length ds \<le> int_max_str_digits \<and> py_int ds = Inr 2)
   \<and> car_pattern white_space (lower ''I have 2 cars and 3 cars'')
   \<and> extract_car_count_from_text ''My car is red'' = Inr None
   \<and> \<not> (\<exists>ds. leftmost_car_match white_space (lower ''My car is red'') ds
            \<and> length ds \<le> int_max_str_digits)"
proof -
  have h1: "extract_car_count_from_text ''I have 2 cars and 3 cars'' = Inr (Some 2)"
    by code_simp
  have h2: "extract_car_count_from_text ''My car is red'' = Inr None"
    by code_simp
  from car_count_extraction_pattern [of "''I have 2 cars and 3 cars''" 2] h1
  have a: "(\<exists>ds. leftmost_car_match white_space (lower ''I have 2 cars and 3 cars'') ds
              \<and> length ds \<le> int_max_str_digits \<and> py_int ds = Inr 2)
           \<and> car_pattern white_space (lower ''I have 2 cars and 3 cars'')"
    by blast
  from car_count_extraction_pattern [of "''My car is red''" 0] h2
  have b: "\<not> (\<exists>ds. leftmost_car_match white_space (lower ''My car is red'') ds
                 \<and> length ds \<le> int_max_str_digits)"
    by blast
  from h1 h2 a b show ?thesis by blast
qed

text \<open>
  The limit of \<^verbatim>\<open>int\<close> matters: a text that starts with more than 4300 digits, followed
  by a space and \<^verbatim>\<open>cars\<close>, contains the pattern and yields no count.
\<close>

lemma lower_char_digit: "is_digit c \<Longrightarrow> lower_char c = c"
proof -
  have "list_all (\<lambda>c. lower_char c = c) ''0123456789''" by code_simp
  then show "is_digit c \<Longrightarrow> lower_char c = c"
    unfolding is_digit_def list_all_iff by blast
qed

lemma lower_digits: "list_all is_digit ds \<Longrightarrow> lower ds = ds"
  by (induction ds) (simp_all add: lower_def lower_char_digit)

lemma over_long_digit_run:
  assumes "list_all is_digit ds" "int_max_str_digits < length ds"
  shows "extract_car_count_from_text (ds @ '' cars'') = Inr None
         \<and> car_pattern white_space (lower (ds @ '' cars''))"
proof -
  have "lower '' cars'' = '' cars''" by code_simp
  then have l: "lower (ds @ '' cars'') = ds @ '' cars''"
    using lower_digits [OF assms(1)] by (simp only: lower_def map_append)
  from assms(2) have ne: "ds \<noteq> []" by auto
  have ws: "white_space '' ''" by code_simp
  have m: "car_match white_space (ds @ '' cars'') [] ds"
    unfolding car_match_def
    by (rule exI [of _ "'' ''"], rule exI [of _ "''s''"]) (simp add: ne assms(1) ws)
  have "leftmost_car_match white_space (ds @ '' cars'') ds"
    unfolding leftmost_car_match_def
    by (rule exI [of _ "[]"]) (simp add: m)
  then have "re_search car_count_at None (ds @ '' cars'') = Some ds"
    by (simp only: re_search_car_leftmost)
  moreover have "py_int ds = Inl ValueError"
    using assms(2) by (simp add: py_int_def)
  ultimately have "extract_car_count_from_text (ds @ '' cars'') = Inr None"
    by (simp add: extract_car_count_from_text_def l)
  moreover from m have "car_pattern white_space (lower (ds @ '' cars''))"
    unfolding l car_pattern_def by blast
  ultimately show ?thesis by simp
qed

lemma single_space_digit_before:
  assumes "car_pattern single_space t"
  shows "list_ex (\<lambda>d. str_in (d # '' car'') t) ''0123456789''"
proof -
  from assms obtain ds pre ws post where
    d: "t = pre @ ds @ ws @ ''car'' @ post" "ds \<noteq> []" "list_all is_digit ds" "ws = '' ''"
    unfolding car_pattern_def car_match_def single_space_def by blast
  from d(2) obtain ds' c where ds: "ds = ds' @ [c]" by (cases ds rule: rev_cases) auto
  with d(3) have "is_digit c" by simp
  then have c: "c \<in> set ''0123456789''" by (auto simp: is_digit_def)
  have "t = (pre @ ds') @ (c # '' car'') @ post" using d(1,4) ds by simp
  then have "str_in (c # '' car'') t" unfolding str_in_iff by blast
  with c show ?thesis unfolding list_ex_iff by blast
qed

text \<open>
  Claim C7 as stated does not hold: in a text whose digits are followed by two spaces
  and then by \<^verbatim>\<open>car\<close>, extraction finds the count, although no digit sequence of the
  text is followed by a single space and then by \<^verbatim>\<open>car\<close>.
\<close>

theorem car_count_single_space_counterexample:
  "extract_car_count_from_text ''I have 2  cars'' = Inr (Some 2)
   \<and> \<not> car_pattern single_space (lower ''I have 2  cars'')"
proof -
  have h: "extract_car_count_from_text ''I have 2  cars'' = Inr (Some 2)"
    by code_simp
  have n: "\<not> list_ex (\<lambda>d. str_in (d # '' car'') (lower ''I have 2  cars'')) ''0123456789''"
    by code_simp
  from single_space_digit_before n
  have "\<not> car_pattern single_space (lower ''I have 2  cars'')" by blast
  with h show ?thesis by simp
qed

lemma digit_char_digit:
  assumes "d < 10"
  shows "is_digit (digit_char d) \<and> digit_val (digit_char d) = d"
proof -
  from assms have "d \<in> {0, 1, 2, 3, 4, 5, 6, 7, 8, 9}" by auto
  then show ?thesis
    by (auto simp: digit_char_def digit_val_def is_digit_def)
qed

lemma str_nat_digits:
  "str_nat n \<noteq> [] \<and> list_all is_digit (str_nat n)
     \<and> foldl (\<lambda>acc c. 10 * acc + digit_val c) 0 (str_nat n) = n"
proof (induction n rule: str_nat.induct)
  case (1 n)
  show ?case
  proof (cases "n < 10")
    case True
    with digit_char_digit [of n] show ?thesis by (simp add: str_nat.simps [of n])
  next
    case False
    then have s: "str_nat n = str_nat (n div 10) @ [digit_char (n mod 10)]"
      by (simp add: str_nat.simps [of n])
    have "n mod 10 < 10" by simp
    from digit_char_digit [OF this] 1 [OF False] show ?thesis
      unfolding s by simp
  qed
qed

lemma py_int_str_nat:
  "length (str_nat n) \<le> int_max_str_digits \<Longrightarrow> py_int (str_nat n) = Inr n"
  using str_nat_digits [of n] by (simp add: py_int_def)

text \<open>
  A count obtained from \<^verbatim>\<open>int\<close> has a numeral of at most as many digits as the string
  it was read from, so \<^verbatim>\<open>str\<close> of it stays within the limit.
\<close>

lemma digit_val_le: "is_digit c \<Longrightarrow> digit_val c \<le> 9"
proof -
  have "list_all (\<lambda>c. digit_val c \<le> 9) ''0123456789''" by code_simp
  then show "is_digit c \<Longrightarrow> digit_val c \<le> 9"
    unfolding is_digit_def list_all_iff by blast
qed

lemma decimal_bound:
  "list_all is_digit s \<Longrightarrow> foldl (\<lambda>acc c. 10 * acc + digit_val c) 0 s < 10 ^ length s"
proof (induction s rule: rev_induct)
  case Nil
  then show ?case by simp
next
  case (snoc c s)
  then have a: "foldl (\<lambda>acc c. 10 * acc + digit_val c) 0 s < 10 ^ length s"
    and d: "digit_val c \<le> 9"
    by (simp_all add: digit_val_le)
  then have "10 * foldl (\<lambda>acc c. 10 * acc + digit_val c) 0 s + digit_val c < 10 * 10 ^ length s"
    by arith
  then show ?case by simp
qed

lemma str_nat_length: "n < 10 ^ k \<Longrightarrow> 0 < k \<Longrightarrow> length (str_nat n) \<le> k"
proof (induction n arbitrary: k rule: str_nat.induct)
  case (1 n)
  show ?case
  proof (cases "n < 10")
    case True
    with 1(3) show ?thesis by (simp add: str_nat.simps [of n])
  next
    case False
    then have s: "str_nat n = str_nat (n div 10) @ [digit_char (n mod 10)]"
      by (simp add: str_nat.simps [of n])
    from 1(3) obtain k' where k: "k = Suc k'" by (cases k) auto
    with 1(2) have lt: "n < 10 * 10 ^ k'" by simp
    with False have "0 < k'" by (cases k') auto
    moreover from lt have "n div 10 < 10 ^ k'" by (simp add: less_mult_imp_div_less mult.commute)
    ultimately have "length (str_nat (n div 10)) \<le> k'" using 1(1) [OF False] by blast
    then show ?thesis unfolding s k by simp
  qed
qed

lemma py_int_str_within_limit:
  assumes "py_int s = Inr n"
  shows "length (str_nat n) \<le> int_max_str_digits"
proof -
  from assms have d: "s \<noteq> []" "list_all is_digit s" "length s \<le> int_max_str_digits"
    and n: "n = foldl (\<lambda>acc c. 10 * acc + digit_val c) 0 s"
    by (auto simp: py_int_def split: if_splits)
  from decimal_bound [OF d(2)] n have "n < 10 ^ length s" by simp
  moreover from d(1) have "0 < length s" by simp
  ultimately have "length (str_nat n) \<le> length s" by (rule str_nat_length)
  with d(3) show ?thesis by simp
qed

lemma car_count_loop_skip:
  "list_all (\<lambda>m. extract_car_count_from_text (text m) = Inr None) xs \<Longrightarrow>
     car_count_loop name (xs @ ys) = car_count_loop name ys"
  by (induction xs) simp_all

text \<open>
  Claim C6. \<^verbatim>\<open>answer_car_count\<close> scans the messages of the member from the most recent
  to the oldest. When no message yields a count, the answer is the not-found message
  naming the member. When a message yields the count \<open>n\<close> and no more recent message
  yields one, the answer is \<^verbatim>\<open>{name} has {n} car{s}.\<close>, with the plural \<^verbatim>\<open>s\<close> exactly when
  \<open>n \<noteq> 1\<close>, where \<^verbatim>\<open>{n}\<close> is the decimal numeral of \<open>n\<close>: a numeral of at most 4300
  digits reads back as \<open>n\<close>.
\<close>

theorem car_count_most_recent:
  "(list_all (\<lambda>m. extract_car_count_from_text (text m) = Inr None) msgs \<longrightarrow>
      answer_car_count name msgs =
        Inr (''I couldn't find how many cars '' @ name @ '' has in their messages.''))
   \<and> (msgs = older @ m # newer
        \<and> extract_car_count_from_text (text m) = Inr (Some n)
        \<and> list_all (\<lambda>m'. extract_car_count_from_text (text m') = Inr None) newer \<longrightarrow>
      answer_car_count name msgs =
        Inr (name @ '' has '' @ str_nat n @ '' car'' @ (if n \<noteq> 1 then ''s'' else []) @ ''.''))
   \<and> (length (str_nat n) \<le> int_max_str_digits \<longrightarrow> py_int (str_nat n) = Inr n)"
proof (intro conjI impI)
  assume "list_all (\<lambda>m. extract_car_count_from_text (text m) = Inr None) msgs"
  then have "list_all (\<lambda>m. extract_car_count_from_text (text m) = Inr None) (rev msgs)"
    by (simp add: list_all_iff)
  from car_count_loop_skip [OF this, of name "[]"]
  show "answer_car_count name msgs =
          Inr (''I couldn't find how many cars '' @ name @ '' has in their messages.'')"
    by (simp add: answer_car_count_def)
next
  assume a: "msgs = older @ m # newer
        \<and> extract_car_count_from_text (text m) = Inr (Some n)
        \<and> list_all (\<lambda>m'. extract_car_count_from_text (text m') = Inr None) newer"
  then have "list_all (\<lambda>m'. extract_car_count_from_text (text m') = Inr None) (rev newer)"
    by (simp add: list_all_iff)
  from car_count_loop_skip [OF this, of name "m # rev older"] a
  show "answer_car_count name msgs =
          Inr (name @ '' has '' @ str_nat n @ '' car'' @ (if n \<noteq> 1 then ''s'' else []) @ ''.'')"
    by (simp add: answer_car_count_def)
next
  assume "length (str_nat n) \<le> int_max_str_digits"
  then show "py_int (str_nat n) = Inr n" by (rule py_int_str_nat)
qed

theorem car_count_most_recent_witness:
  "answer_car_count ''Sophia Lee''
     [message ''Sophia Lee'' ''I have 1 car'',
      message ''Sophia Lee'' ''Actually now I have 2 cars'',
      message ''Sophia Lee'' ''See you on Friday'']
     = Inr ''Sophia Lee has 2 cars.''
   \<and> answer_car_count ''Sophia Lee''
        [message ''Sophia Lee'' ''I sold 1 car'', message ''Sophia Lee'' ''I have 1 car'']
     = Inr ''Sophia Lee has 1 car.''
   \<and> answer_car_count ''Sophia Lee'' [message ''Sophia Lee'' ''See you on Friday'']
     = Inr ''I couldn't find how many cars Sophia Lee has in their messages.''
   \<and> py_int ''2'' = Inr 2"
proof -
  let ?m1 = "message ''Sophia Lee'' ''I have 1 car''"
  let ?m2 = "message ''Sophia Lee'' ''Actually now I have 2 cars''"
  let ?m3 = "message ''Sophia Lee'' ''See you on Friday''"
  let ?m0 = "message ''Sophia Lee'' ''I sold 1 car''"
  have e1: "extract_car_count_from_text (text ?m1) = Inr (Some 1)" by code_simp
  have e2: "extract_car_count_from_text (text ?m2) = Inr (Some 2)" by code_simp
  have e3: "list_all (\<lambda>m'. extract_car_count_from_text (text m') = Inr None) [?m3]"
    by code_simp
  have s2: "str_nat 2 = ''2''" by code_simp
  have s1: "str_nat (Suc 0) = ''1''" by code_simp
  have l2: "length ''2'' \<le> int_max_str_digits" by code_simp
  from car_count_most_recent [of "[?m1, ?m2, ?m3]" "''Sophia Lee''" "[?m1]" ?m2 "[?m3]" 2] e2 e3 l2
  have a: "answer_car_count ''Sophia Lee'' [?m1, ?m2, ?m3] = Inr ''Sophia Lee has 2 cars.''
           \<and> py_int ''2'' = Inr 2"
    by (simp add: s2)
  from car_count_most_recent [of "[?m0, ?m1]" "''Sophia Lee''" "[?m0]" ?m1 "[]" 1] e1
  have b: "answer_car_count ''Sophia Lee'' [?m0, ?m1] = Inr ''Sophia Lee has 1 car.''"
    by (simp add: s1)
  from car_count_most_recent [of "[?m3]" "''Sophia Lee''" "[]" ?m3 "[]" 0] e3
  have c: "answer_car_count ''Sophia Lee'' [?m3]
             = Inr ''I couldn't find how many cars Sophia Lee has in their messages.''"
    by simp
  from a b c show ?thesis by blast
qed

end
